theory Spec2Isabelle
  imports Complex_Main "HOL-Library.Word" "HOL-Library.Monad_Syntax"
begin

section \<open>The Ising lattice of Ising.c\<close>

text \<open>
  \<^verbatim>\<open>typedef int8_t spin_t;  typedef int64_t energy_t;\<close>  and \<^verbatim>\<open>size_t\<close> is the
  64-bit unsigned integer of the LP64 platforms the program is built for.  All three
  are machine words: \<open>+\<close>, \<open>-\<close> and \<open>*\<close> wrap around, \<open>sint\<close> reads the signed
  value.
\<close>

type_synonym size_t = "64 word"
type_synonym spin_t = "8 word"
type_synonym energy_t = "64 word"

definition SPIN_UP :: spin_t where
  "SPIN_UP = 1"

definition SPIN_DOWN :: spin_t where
  "SPIN_DOWN = - 1"

text \<open>
  \<^verbatim>\<open>typedef struct { size_t width; size_t height; spin_t* data; } Lattice;\<close>
  The struct is passed by value but \<open>data\<close> points to the one heap buffer; the model
  keeps the buffer in the record and every function that writes through the pointer
  returns the updated lattice.
\<close>

record Lattice =
  width :: size_t
  height :: size_t
  data :: "spin_t list"

text \<open>\<^verbatim>\<open>calloc(width * height, sizeof(spin_t))\<close>: the product is computed in \<open>size_t\<close>.\<close>

definition allocateLattice :: "size_t \<Rightarrow> size_t \<Rightarrow> Lattice" where
  "allocateLattice w h = \<lparr>width = w, height = h, data = replicate (unat (w * h)) 0\<rparr>"

text \<open>
  Undefined behaviour of the C program (\<open>%\<close> by zero, an access outside the buffer) is
  the result \<open>None\<close>.
\<close>

definition getIndex :: "Lattice \<Rightarrow> size_t \<Rightarrow> size_t \<Rightarrow> size_t option" where
  "getIndex lattice x y =
     (if width lattice = 0 then None
      else let x' = (x + width lattice) mod width lattice in
        if height lattice = 0 then None
        else let y' = (y + height lattice) mod height lattice in
          Some (x' * height lattice + y'))"

definition get :: "Lattice \<Rightarrow> size_t \<Rightarrow> size_t \<Rightarrow> spin_t option" where
  "get lattice x y =
     (case getIndex lattice x y of
        None \<Rightarrow> None
      | Some i \<Rightarrow> if unat i < length (data lattice) then Some (data lattice ! unat i) else None)"

definition set_cell :: "Lattice \<Rightarrow> size_t \<Rightarrow> size_t \<Rightarrow> spin_t \<Rightarrow> Lattice option" where
  "set_cell lattice x y v =
     (case getIndex lattice x y of
        None \<Rightarrow> None
      | Some i \<Rightarrow> if unat i < length (data lattice)
                 then Some (lattice\<lparr>data := (data lattice)[unat i := v]\<rparr>) else None)"

definition flip :: "Lattice \<Rightarrow> size_t \<Rightarrow> size_t \<Rightarrow> Lattice option" where
  "flip lattice x y =
     (case get lattice x y of
        None \<Rightarrow> None
      | Some v \<Rightarrow> set_cell lattice x y (- v))"

subsection \<open>Counting loops\<close>

text \<open>
  \<^verbatim>\<open>for (i = i0; i < n; ++i) body\<close> with a \<open>size_t\<close> counter.  The body may be
  undefined (\<open>None\<close>), which ends the run.
\<close>

function for_loop :: "size_t \<Rightarrow> size_t \<Rightarrow> (size_t \<Rightarrow> 's \<Rightarrow> 's option) \<Rightarrow> 's \<Rightarrow> 's option" where
  "for_loop i n body s =
     (if i < n then (case body i s of None \<Rightarrow> None | Some s' \<Rightarrow> for_loop (i + 1) n body s')
      else Some s)"
  by pat_completeness auto
termination
proof (relation "measure (\<lambda>(i, n, body, s). unat n - unat i)")
  show "wf (measure (\<lambda>(i :: size_t, n :: size_t, body :: size_t \<Rightarrow> 's \<Rightarrow> 's option, s :: 's). unat n - unat i))"
    by simp
next
  fix i n :: size_t and body :: "size_t \<Rightarrow> 's \<Rightarrow> 's option" and s s' :: 's
  assume "i < n"
  then have "unat i < unat n"
    by (simp add: word_less_nat_alt)
  moreover have "unat n < 2 ^ 64"
    using unsigned_less [of n] by simp
  ultimately have "unat n - unat (i + 1) < unat n - unat i"
    by (simp add: unat_word_ariths diff_less_mono2)
  then show "((i + 1, n, body, s'), (i, n, body, s)) \<in> measure (\<lambda>(i, n, body, s). unat n - unat i)"
    by simp
qed

declare for_loop.simps [simp del]

text \<open>
  The same loop whose body may execute \<^verbatim>\<open>return\<close>: the body answers \<open>Return s\<close> to
  leave the enclosing function at once, \<open>Next s\<close> to go on.
\<close>

datatype 's ctl = Next 's | Return 's

function for_loop_ret :: "size_t \<Rightarrow> size_t \<Rightarrow> (size_t \<Rightarrow> 's \<Rightarrow> 's ctl option) \<Rightarrow> 's \<Rightarrow> 's ctl option" where
  "for_loop_ret i n body s =
     (if i < n then
        (case body i s of
           None \<Rightarrow> None
         | Some (Return s') \<Rightarrow> Some (Return s')
         | Some (Next s') \<Rightarrow> for_loop_ret (i + 1) n body s')
      else Some (Next s))"
  by pat_completeness auto
termination
proof (relation "measure (\<lambda>(i, n, body, s). unat n - unat i)")
  show "wf (measure (\<lambda>(i :: size_t, n :: size_t, body :: size_t \<Rightarrow> 's \<Rightarrow> 's ctl option, s :: 's). unat n - unat i))"
    by simp
next
  fix i n :: size_t and body :: "size_t \<Rightarrow> 's \<Rightarrow> 's ctl option" and s s' :: 's
  assume "i < n"
  then have "unat i < unat n"
    by (simp add: word_less_nat_alt)
  moreover have "unat n < 2 ^ 64"
    using unsigned_less [of n] by simp
  ultimately have "unat n - unat (i + 1) < unat n - unat i"
    by (simp add: unat_word_ariths diff_less_mono2)
  then show "((i + 1, n, body, s'), (i, n, body, s)) \<in> measure (\<lambda>(i, n, body, s). unat n - unat i)"
    by simp
qed

declare for_loop_ret.simps [simp del]

subsection \<open>Filling and energy\<close>

definition fillGroundState :: "Lattice \<Rightarrow> spin_t \<Rightarrow> Lattice option" where
  "fillGroundState lattice spin =
     for_loop 0 (width lattice)
       (\<lambda>x l. for_loop 0 (height lattice) (\<lambda>y l. set_cell l x y spin) l) lattice"

text \<open>
  \<^verbatim>\<open>energy += get(lattice, x, y) * get(lattice, x + 1, y);\<close>  Both spins are promoted
  to \<open>int\<close>, the product (at most \<open>2\<^sup>1\<^sup>4\<close> in size) is converted to \<open>int64_t\<close> and added.
\<close>

definition bond :: "Lattice \<Rightarrow> size_t \<Rightarrow> size_t \<Rightarrow> size_t \<Rightarrow> size_t \<Rightarrow> energy_t \<Rightarrow> energy_t option" where
  "bond lattice x y x' y' energy =
     (case get lattice x y of
        None \<Rightarrow> None
      | Some a \<Rightarrow>
          (case get lattice x' y' of
             None \<Rightarrow> None
           | Some b \<Rightarrow> Some (energy + scast a * scast b)))"

definition calcEnergy :: "Lattice \<Rightarrow> energy_t option" where
  "calcEnergy lattice =
     for_loop 0 (width lattice)
       (\<lambda>x energy. for_loop 0 (height lattice)
          (\<lambda>y energy. do {
             e1 \<leftarrow> bond lattice x y (x + 1) y energy;
             e2 \<leftarrow> bond lattice x y (x - 1) y e1;
             e3 \<leftarrow> bond lattice x y x (y + 1) e2;
             bond lattice x y x (y - 1) e3 })
          energy)
       0"

subsection \<open>Floating point\<close>

text \<open>
  \<^verbatim>\<open>typedef double weight_t;\<close>  The program uses a handful of \<open>double\<close> operations.
  The weight type \<open>'w\<close> and its operations are a parameter of the model.  What is
  proved about the sampler and the thermalization loop holds for every choice of them,
  IEEE doubles included; the random source is studied in the binary64 arithmetic
  defined below.
\<close>

record 'w fp =
  fp_zero :: 'w
  fp_add :: "'w \<Rightarrow> 'w \<Rightarrow> 'w"
  fp_mul :: "'w \<Rightarrow> 'w \<Rightarrow> 'w"
  fp_div :: "'w \<Rightarrow> 'w \<Rightarrow> 'w"
  fp_neg :: "'w \<Rightarrow> 'w"
  fp_gt :: "'w \<Rightarrow> 'w \<Rightarrow> bool"
  fp_of_int :: "int \<Rightarrow> 'w"
  fp_exp :: "'w \<Rightarrow> 'w"

text \<open>
  An instance for the examples of the sampler and of the loop: the operations on the
  real numbers, without rounding.
\<close>

definition real_fp :: "real fp" where
  "real_fp = \<lparr>fp_zero = 0, fp_add = (+), fp_mul = (*), fp_div = (/), fp_neg = uminus,
              fp_gt = (\<lambda>a b. b < a), fp_of_int = of_int, fp_exp = exp\<rparr>"

text \<open>
  IEEE 754 binary64 with the default rounding, for finite results in the normal range:
  a double is the rational number it denotes.  \<open>round_even\<close> rounds to the nearest
  integer, ties to the even one.  \<open>binade x\<close> is the exponent \<open>e\<close> with
  \<open>2\<^sup>e \<le> |x| < 2\<^sup>e\<^sup>+\<^sup>1\<close>, searched within the exponent range of the format.
  \<open>round_double\<close> rounds to the nearest number with a 53-bit significand.
\<close>

definition round_even :: "rat \<Rightarrow> int" where
  "round_even y =
     (let f = \<lfloor>y\<rfloor>; d = y - of_int f
      in if d < 1 / 2 then f else if 1 / 2 < d then f + 1 else if even f then f else f + 1)"

fun binade_search :: "nat \<Rightarrow> rat \<Rightarrow> int" where
  "binade_search 0 x = 0"
| "binade_search (Suc n) x =
     (if x < 1 then binade_search n (2 * x) - 1
      else if 2 \<le> x then binade_search n (x / 2) + 1
      else 0)"

definition binade :: "rat \<Rightarrow> int" where
  "binade x = binade_search 1100 \<bar>x\<bar>"

definition round_double :: "rat \<Rightarrow> rat" where
  "round_double x =
     (if x = 0 then 0
      else let u = 2 powi (binade x - 52) in u * of_int (round_even (x / u)))"

text \<open>
  The \<open>double\<close> operations of the program: each arithmetic operation and the
  conversion from \<open>int\<close> return the exact result rounded; negation and comparison are
  exact.  \<open>exp\<close> is the function of the C library, whose rounding the C standard
  does not fix: it is a parameter.
\<close>

definition double_fp :: "(rat \<Rightarrow> rat) \<Rightarrow> rat fp" where
  "double_fp libm_exp =
     \<lparr>fp_zero = 0,
      fp_add = (\<lambda>a b. round_double (a + b)),
      fp_mul = (\<lambda>a b. round_double (a * b)),
      fp_div = (\<lambda>a b. round_double (a / b)),
      fp_neg = uminus,
      fp_gt = (\<lambda>a b. b < a),
      fp_of_int = (\<lambda>k. round_double (of_int k)),
      fp_exp = libm_exp\<rparr>"

text \<open>Stands for the library's \<open>exp\<close> in examples that do not call it.\<close>

definition no_exp :: "rat \<Rightarrow> rat" where
  "no_exp x = 0"

text \<open>
  \<^verbatim>\<open>return ((weight_t) rand() / (weight_t) RAND_MAX);\<close>  The value \<open>rand()\<close> returns
  and the macro \<open>RAND_MAX\<close> of the C library are parameters.
\<close>

definition uniformRandom :: "'w fp \<Rightarrow> int \<Rightarrow> int \<Rightarrow> 'w" where
  "uniformRandom fp RAND_MAX rand = fp_div fp (fp_of_int fp rand) (fp_of_int fp RAND_MAX)"

text \<open>\<^verbatim>\<open>return exp(- beta * energy);\<close>\<close>

definition calcWeight :: "'w fp \<Rightarrow> Lattice \<Rightarrow> 'w \<Rightarrow> 'w option" where
  "calcWeight fp lattice beta = do {
     energy \<leftarrow> calcEnergy lattice;
     Some (fp_exp fp (fp_mul fp (fp_neg fp beta) (fp_of_int fp (sint energy)))) }"

subsection \<open>The sampler\<close>

text \<open>Reads and writes of the scratch buffer \<^verbatim>\<open>weight_t* buffer\<close>.\<close>

definition buf_read :: "'w list \<Rightarrow> size_t \<Rightarrow> 'w option" where
  "buf_read buffer i = (if unat i < length buffer then Some (buffer ! unat i) else None)"

definition buf_write :: "'w list \<Rightarrow> size_t \<Rightarrow> 'w \<Rightarrow> 'w list option" where
  "buf_write buffer i v = (if unat i < length buffer then Some (buffer[unat i := v]) else None)"

text \<open>
  The four loop nests of \<open>tryFlipOneSpin\<close>.  \<open>r\<close> is the value that the call
  \<^verbatim>\<open>uniformRandom()\<close> returns.  The result is the lattice and the scratch buffer as
  the call leaves them.
\<close>

definition fill_weights :: "'w fp \<Rightarrow> Lattice \<Rightarrow> 'w \<Rightarrow> 'w list \<Rightarrow> (Lattice \<times> 'w list) option" where
  "fill_weights fp lattice beta buffer =
     for_loop 0 (width lattice)
       (\<lambda>x s. for_loop 0 (height lattice)
          (\<lambda>y (l, buf). do {
             l1 \<leftarrow> flip l x y;
             weight \<leftarrow> calcWeight fp l1 beta;
             i \<leftarrow> getIndex l1 x y;
             buf' \<leftarrow> buf_write buf i weight;
             l2 \<leftarrow> flip l1 x y;
             Some (l2, buf') })
          s)
       (lattice, buffer)"

definition sum_weights :: "'w fp \<Rightarrow> Lattice \<Rightarrow> 'w list \<Rightarrow> 'w option" where
  "sum_weights fp lattice buffer =
     for_loop 0 (width lattice)
       (\<lambda>x sum. for_loop 0 (height lattice)
          (\<lambda>y sum. do {
             i \<leftarrow> getIndex lattice x y;
             v \<leftarrow> buf_read buffer i;
             Some (fp_add fp sum v) })
          sum)
       (fp_zero fp)"

definition normalize_weights :: "'w fp \<Rightarrow> Lattice \<Rightarrow> 'w \<Rightarrow> 'w list \<Rightarrow> 'w list option" where
  "normalize_weights fp lattice wsum buffer =
     for_loop 0 (width lattice)
       (\<lambda>x buf. for_loop 0 (height lattice)
          (\<lambda>y buf. do {
             i \<leftarrow> getIndex lattice x y;
             v \<leftarrow> buf_read buf i;
             buf_write buf i (fp_div fp v wsum) })
          buf)
       buffer"

definition select_flip :: "'w fp \<Rightarrow> Lattice \<Rightarrow> 'w list \<Rightarrow> 'w \<Rightarrow> (Lattice \<times> 'w) ctl option" where
  "select_flip fp lattice buffer r =
     for_loop_ret 0 (width lattice)
       (\<lambda>x s. for_loop_ret 0 (height lattice)
          (\<lambda>y (l, sum). do {
             i \<leftarrow> getIndex l x y;
             v \<leftarrow> buf_read buffer i;
             let sum' = fp_add fp sum v in
             if fp_gt fp sum' r then do {
               l' \<leftarrow> flip l x y;
               Some (Return (l', sum')) }
             else Some (Next (l, sum')) })
          s)
       (lattice, fp_zero fp)"

definition tryFlipOneSpin :: "'w fp \<Rightarrow> Lattice \<Rightarrow> 'w \<Rightarrow> 'w list \<Rightarrow> 'w \<Rightarrow> (Lattice \<times> 'w list) option" where
  "tryFlipOneSpin fp lattice beta buffer r = do {
     (l1, buf1) \<leftarrow> fill_weights fp lattice beta buffer;
     wsum \<leftarrow> sum_weights fp l1 buf1;
     buf2 \<leftarrow> normalize_weights fp l1 wsum buf1;
     c \<leftarrow> select_flip fp l1 buf2 r;
     (case c of Return (l2, _) \<Rightarrow> Some (l2, buf2) | Next (l2, _) \<Rightarrow> Some (l2, buf2)) }"

subsection \<open>Thermalization\<close>

text \<open>
  The loop \<^verbatim>\<open>for (;;)\<close> of \<open>evolveIntoThermalState\<close> has no bound.  Each iteration
  consumes one value of the random source; the model is given the list of the values
  the source will deliver and runs the loop until it breaks or the list is used up.
\<close>

datatype 'a outcome = Undefined | OutOfDraws | Returned 'a

fun evolve_loop :: "'w fp \<Rightarrow> 'w \<Rightarrow> size_t \<Rightarrow> Lattice \<Rightarrow> 'w list \<Rightarrow> energy_t \<Rightarrow> size_t \<Rightarrow> 'w list \<Rightarrow> Lattice outcome" where
  "evolve_loop fp beta max_consequential_hits lattice buffer energy consequential_hits [] = OutOfDraws"
| "evolve_loop fp beta max_consequential_hits lattice buffer energy consequential_hits (r # rs) =
     (case tryFlipOneSpin fp lattice beta buffer r of
        None \<Rightarrow> Undefined
      | Some (lattice', buffer') \<Rightarrow>
          (case calcEnergy lattice' of
             None \<Rightarrow> Undefined
           | Some newEnergy \<Rightarrow>
               let hits' = (if energy = newEnergy then consequential_hits + 1 else 0) in
               if hits' \<ge> max_consequential_hits then Returned lattice'
               else evolve_loop fp beta max_consequential_hits lattice' buffer' newEnergy hits' rs))"

text \<open>
  \<^verbatim>\<open>calloc(lattice.width * lattice.height, sizeof(weight_t))\<close> is taken to succeed;
  it returns zeroed memory, which reads \<open>0.0\<close>.
\<close>

definition evolveIntoThermalState :: "'w fp \<Rightarrow> Lattice \<Rightarrow> 'w \<Rightarrow> size_t \<Rightarrow> 'w list \<Rightarrow> Lattice outcome" where
  "evolveIntoThermalState fp lattice beta max_consequential_hits draws =
     (case calcEnergy lattice of
        None \<Rightarrow> Undefined
      | Some energy \<Rightarrow>
          evolve_loop fp beta max_consequential_hits lattice
            (replicate (unat (width lattice * height lattice)) (fp_zero fp)) energy 0 draws)"

subsection \<open>Rendering\<close>

text \<open>
  The output sink \<^verbatim>\<open>FILE*\<close> is the string of the characters written so far;
  \<open>printLattice\<close> returns it extended.
\<close>

definition newline :: char where
  "newline = CHR 0x0A"

definition printLattice :: "Lattice \<Rightarrow> string \<Rightarrow> string option" where
  "printLattice lattice out =
     for_loop 0 (width lattice)
       (\<lambda>x out. do {
          out' \<leftarrow> for_loop 0 (height lattice)
            (\<lambda>y out. do {
               v \<leftarrow> get lattice x y;
               Some (out @ [if v = 1 then CHR ''+'' else CHR ''-'']) })
            out;
          Some (out' @ [newline]) })
       out"

section \<open>Notions used to state the properties\<close>

text \<open>The reduction \<^verbatim>\<open>x = (x + lattice.width) % lattice.width\<close> of \<open>getIndex\<close>.\<close>

definition wrap_coord :: "size_t \<Rightarrow> size_t \<Rightarrow> size_t" where
  "wrap_coord n x = (x + n) mod n"

text \<open>The position in \<open>data\<close> that \<open>getIndex\<close> computes, as a natural number.\<close>

definition cell_index :: "Lattice \<Rightarrow> size_t \<Rightarrow> size_t \<Rightarrow> nat" where
  "cell_index l x y =
     unat (wrap_coord (width l) x) * unat (height l) + unat (wrap_coord (height l) y)"

text \<open>
  A lattice as \<open>allocateLattice\<close> makes it when \<^verbatim>\<open>calloc\<close> succeeds: both dimensions
  are positive and the buffer has one cell per coordinate pair.  The buffer is one C
  object, so its size is at most \<open>PTRDIFF_MAX = 2\<^sup>6\<^sup>3 - 1\<close> bytes.
\<close>

definition wf_lattice :: "Lattice \<Rightarrow> bool" where
  "wf_lattice l \<longleftrightarrow>
     width l \<noteq> 0 \<and> height l \<noteq> 0 \<and> unat (width l) * unat (height l) < 2 ^ 63 \<and>
     length (data l) = unat (width l) * unat (height l)"

definition spins_ok :: "Lattice \<Rightarrow> bool" where
  "spins_ok l \<longleftrightarrow> list_all (\<lambda>v. v = 1 \<or> v = - 1) (data l)"

definition valid_lattice :: "Lattice \<Rightarrow> bool" where
  "valid_lattice l \<longleftrightarrow> wf_lattice l \<and> spins_ok l"

text \<open>The global spin flip: every cell negated at once.\<close>

definition negate_all :: "Lattice \<Rightarrow> Lattice" where
  "negate_all l = l\<lparr>data := map uminus (data l)\<rparr>"

text \<open>The lines of a text: the pieces that end at a newline character.\<close>

fun split_lines :: "string \<Rightarrow> string list" where
  "split_lines [] = []"
| "split_lines (c # cs) =
     (if c = newline then [] # split_lines cs
      else (case split_lines cs of [] \<Rightarrow> [[c]] | r # rs \<Rightarrow> (c # r) # rs))"

text \<open>The character \<open>printLattice\<close> writes for the cell \<open>(i, j)\<close>, and the row of \<open>x = i\<close>.\<close>

definition cell_char :: "Lattice \<Rightarrow> nat \<Rightarrow> nat \<Rightarrow> char" where
  "cell_char l i j = (if get l (of_nat i) (of_nat j) = Some 1 then CHR ''+'' else CHR ''-'')"

definition row_text :: "Lattice \<Rightarrow> nat \<Rightarrow> string" where
  "row_text l i = map (cell_char l i) [0..<unat (height l)]"

subsection \<open>The sampling rule in the words of the specification\<close>

text \<open>
  The cells in the fixed order of the loops, \<open>x\<close> outermost; the lattice with the
  cell at position \<open>k\<close> of the buffer negated.
\<close>

definition cell_order :: "Lattice \<Rightarrow> (nat \<times> nat) list" where
  "cell_order l = List.product [0..<unat (width l)] [0..<unat (height l)]"

definition flipped :: "Lattice \<Rightarrow> nat \<Rightarrow> Lattice" where
  "flipped l k = l\<lparr>data := (data l)[k := - (data l ! k)]\<rparr>"

text \<open>
  The weight of the configuration obtained by flipping one cell alone; the candidate
  weights divided by their sum; the running sum through position \<open>k\<close>; the first
  position whose running sum exceeds \<open>r\<close>.
\<close>

definition flip_weight :: "'w fp \<Rightarrow> Lattice \<Rightarrow> 'w \<Rightarrow> nat \<times> nat \<Rightarrow> 'w" where
  "flip_weight fp l beta c =
     (case flip l (of_nat (fst c)) (of_nat (snd c)) \<bind> (\<lambda>l'. calcWeight fp l' beta) of
        Some w \<Rightarrow> w
      | None \<Rightarrow> fp_zero fp)"

definition normalized_weights :: "'w fp \<Rightarrow> Lattice \<Rightarrow> 'w \<Rightarrow> 'w list" where
  "normalized_weights fp l beta =
     (let ws = map (flip_weight fp l beta) (cell_order l);
          wsum = foldl (fp_add fp) (fp_zero fp) ws
      in map (\<lambda>v. fp_div fp v wsum) ws)"

definition cumulative :: "'w fp \<Rightarrow> 'w list \<Rightarrow> nat \<Rightarrow> 'w" where
  "cumulative fp ws k = foldl (fp_add fp) (fp_zero fp) (take (Suc k) ws)"

definition selected_index :: "'w fp \<Rightarrow> Lattice \<Rightarrow> 'w \<Rightarrow> 'w \<Rightarrow> nat option" where
  "selected_index fp l beta r =
     find (\<lambda>k. fp_gt fp (cumulative fp (normalized_weights fp l beta) k) r)
       [0..<length (cell_order l)]"

subsection \<open>The run of the thermalization loop in the words of the specification\<close>

text \<open>
  The lattices that successive sampler steps produce from the draws \<open>rs\<close>, the first
  being the starting lattice; the total energy of a lattice.
\<close>

fun sampler_run :: "'w fp \<Rightarrow> 'w \<Rightarrow> Lattice \<Rightarrow> 'w list \<Rightarrow> 'w list \<Rightarrow> Lattice list" where
  "sampler_run fp beta l buf [] = [l]"
| "sampler_run fp beta l buf (r # rs) =
     l # (case tryFlipOneSpin fp l beta buf r of
            None \<Rightarrow> []
          | Some (l', buf') \<Rightarrow> sampler_run fp beta l' buf' rs)"

definition energy_of :: "Lattice \<Rightarrow> energy_t" where
  "energy_of l = (case calcEnergy l of Some e \<Rightarrow> e | None \<Rightarrow> 0)"

text \<open>
  The consecutive-unchanged counter: starting from \<open>c\<close> with the energy \<open>e\<close> recorded,
  it is incremented when the energy after a step equals the energy before it and
  reset to zero otherwise.
\<close>

fun count_from :: "nat \<Rightarrow> energy_t \<Rightarrow> energy_t list \<Rightarrow> nat" where
  "count_from c e [] = c"
| "count_from c e (e' # es) = count_from (if e = e' then Suc c else 0) e' es"

definition unchanged_counter :: "Lattice list \<Rightarrow> nat \<Rightarrow> nat" where
  "unchanged_counter ls m =
     (case ls of [] \<Rightarrow> 0 | l # ls' \<Rightarrow> count_from 0 (energy_of l) (map energy_of (take m ls')))"

text \<open>
  Step \<open>n\<close> is the first step after which the counter \<open>cnt\<close> has reached the
  threshold \<open>p\<close>.
\<close>

definition stops_at :: "nat \<Rightarrow> (nat \<Rightarrow> nat) \<Rightarrow> nat \<Rightarrow> bool" where
  "stops_at p cnt n \<longleftrightarrow> 0 < n \<and> p \<le> cnt n \<and> (\<forall>m. 0 < m \<and> m < n \<longrightarrow> cnt m < p)"

text \<open>
  The run that \<open>evolveIntoThermalState\<close> starts: the scratch buffer is fresh.
\<close>

definition thermal_run :: "'w fp \<Rightarrow> 'w \<Rightarrow> Lattice \<Rightarrow> 'w list \<Rightarrow> Lattice list" where
  "thermal_run fp beta l draws =
     sampler_run fp beta l (replicate (unat (width l * height l)) (fp_zero fp)) draws"

subsection \<open>Small lattices\<close>

definition lattice_1x1 :: Lattice where
  "lattice_1x1 = \<lparr>width = 1, height = 1, data = [1]\<rparr>"

definition lattice_1x2 :: Lattice where
  "lattice_1x2 = \<lparr>width = 1, height = 2, data = [1, - 1]\<rparr>"

definition lattice_3x1 :: Lattice where
  "lattice_3x1 = \<lparr>width = 3, height = 1, data = [1, - 1, - 1]\<rparr>"

definition lattice_2x2 :: Lattice where
  "lattice_2x2 = \<lparr>width = 2, height = 2, data = [1, - 1, - 1, 1]\<rparr>"

section \<open>Coordinates and cells\<close>

lemma unat_wrap_coord:
  "n \<noteq> 0 \<Longrightarrow> unat (wrap_coord n x) = ((unat x + unat n) mod 2 ^ 64) mod unat n"
  by (simp add: wrap_coord_def unat_mod unat_word_ariths)

lemma wrap_coord_less: "n \<noteq> 0 \<Longrightarrow> unat (wrap_coord n x) < unat n"
  by (simp add: unat_wrap_coord unat_gt_0)

lemma getIndex_wrap:
  "width l \<noteq> 0 \<Longrightarrow> height l \<noteq> 0 \<Longrightarrow>
   getIndex l x y = Some (wrap_coord (width l) x * height l + wrap_coord (height l) y)"
  by (simp add: getIndex_def wrap_coord_def Let_def)

lemma index_bound:
  fixes a b W H :: nat
  assumes "a < W" and "b < H"
  shows "a * H + b < W * H"
proof -
  have "a * H + b < a * H + H"
    using assms by simp
  also have "\<dots> = (a + 1) * H"
    by simp
  also have "\<dots> \<le> W * H"
    using assms by (intro mult_le_mono1) simp
  finally show ?thesis .
qed

lemma cell_index_less:
  "width l \<noteq> 0 \<Longrightarrow> height l \<noteq> 0 \<Longrightarrow> cell_index l x y < unat (width l) * unat (height l)"
  unfolding cell_index_def by (intro index_bound wrap_coord_less)

lemma unat_getIndex:
  assumes "wf_lattice l"
  shows "getIndex l x y = Some (of_nat (cell_index l x y))"
    and "unat (of_nat (cell_index l x y) :: size_t) = cell_index l x y"
    and "cell_index l x y < length (data l)"
proof -
  from assms have nz: "width l \<noteq> 0" "height l \<noteq> 0"
    and small: "unat (width l) * unat (height l) < 2 ^ 63"
    and len: "length (data l) = unat (width l) * unat (height l)"
    by (simp_all add: wf_lattice_def)
  have less: "cell_index l x y < unat (width l) * unat (height l)"
    using nz by (rule cell_index_less)
  then show "cell_index l x y < length (data l)"
    by (simp add: len)
  have "cell_index l x y < 2 ^ 64"
    using less small by simp
  then show "unat (of_nat (cell_index l x y) :: size_t) = cell_index l x y"
    by (simp add: unat_of_nat)
  show "getIndex l x y = Some (of_nat (cell_index l x y))"
    by (simp add: getIndex_wrap nz cell_index_def)
qed

lemma get_wf: "wf_lattice l \<Longrightarrow> get l x y = Some (data l ! cell_index l x y)"
  by (simp add: get_def unat_getIndex)

lemma set_cell_wf:
  "wf_lattice l \<Longrightarrow> set_cell l x y v = Some (l\<lparr>data := (data l)[cell_index l x y := v]\<rparr>)"
  by (simp add: set_cell_def unat_getIndex)

lemma flip_wf:
  "wf_lattice l \<Longrightarrow>
   flip l x y = Some (l\<lparr>data := (data l)[cell_index l x y := - (data l ! cell_index l x y)]\<rparr>)"
  by (simp add: flip_def get_wf set_cell_wf)

lemma wf_lattice_data_update [simp]:
  "wf_lattice (l\<lparr>data := (data l)[i := v]\<rparr>) = wf_lattice l"
  by (simp add: wf_lattice_def)

lemma cell_index_data_update [simp]:
  "cell_index (l\<lparr>data := d\<rparr>) x y = cell_index l x y"
  by (simp add: cell_index_def)

lemma index_inj:
  fixes a b a' b' H :: nat
  assumes "b < H" and "b' < H" and "a * H + b = a' * H + b'"
  shows "a = a' \<and> b = b'"
proof -
  have "(a * H + b) div H = a" "(a' * H + b') div H = a'"
    using assms(1,2) by simp_all
  moreover have "(a * H + b) mod H = b" "(a' * H + b') mod H = b'"
    using assms(1,2) by simp_all
  ultimately show ?thesis
    using assms(3) by metis
qed

lemma cell_index_inj:
  assumes "width l \<noteq> 0" and "height l \<noteq> 0"
    and "cell_index l x y = cell_index l x' y'"
  shows "wrap_coord (width l) x = wrap_coord (width l) x' \<and>
         wrap_coord (height l) y = wrap_coord (height l) y'"
proof -
  have "unat (wrap_coord (width l) x) = unat (wrap_coord (width l) x') \<and>
        unat (wrap_coord (height l) y) = unat (wrap_coord (height l) y')"
    using assms(3) unfolding cell_index_def
    by (intro index_inj [where H = "unat (height l)"] wrap_coord_less assms(2))
  then show ?thesis
    by (simp add: word_unat_eq_iff)
qed

lemma wrap_coord_in_range:
  assumes "unat n \<le> 2 ^ 63" and "x < n"
  shows "wrap_coord n x = x"
proof -
  have lt: "unat x < unat n"
    using assms(2) by (simp add: word_less_nat_alt)
  then have "n \<noteq> 0"
    by auto
  moreover have "unat x + unat n < 2 ^ 64"
    using lt assms(1) by simp
  ultimately have "unat (wrap_coord n x) = unat x"
    using lt by (simp add: unat_wrap_coord)
  then show ?thesis
    by (simp add: word_unat_eq_iff)
qed

lemma wf_lattice_dims:
  assumes "wf_lattice l"
  shows "unat (width l) \<le> 2 ^ 63" and "unat (height l) \<le> 2 ^ 63"
proof -
  from assms have nz: "0 < unat (width l)" "0 < unat (height l)"
    and small: "unat (width l) * unat (height l) < 2 ^ 63"
    by (simp_all add: wf_lattice_def unat_gt_0)
  have "unat (width l) \<le> unat (width l) * unat (height l)"
    using nz by simp
  then show "unat (width l) \<le> 2 ^ 63"
    using small by linarith
  have "unat (height l) \<le> unat (width l) * unat (height l)"
    using nz by simp
  then show "unat (height l) \<le> 2 ^ 63"
    using small by linarith
qed

section \<open>Rules for the counting loops\<close>

lemma unat_Suc_less:
  fixes i n :: size_t
  assumes "i < n"
  shows "unat (i + 1) = Suc (unat i)" and "i + 1 \<le> n"
proof -
  have "unat i < unat n"
    using assms by (simp add: word_less_nat_alt)
  moreover have "unat n < 2 ^ 64"
    using unsigned_less [of n] by simp
  ultimately show *: "unat (i + 1) = Suc (unat i)"
    by (simp add: unat_word_ariths)
  show "i + 1 \<le> n"
    using * \<open>unat i < unat n\<close> by (simp add: word_le_nat_alt)
qed

lemma for_loop_rule:
  assumes "i \<le> n" and "P (unat i) s"
    and "\<And>k s. unat i \<le> k \<Longrightarrow> k < unat n \<Longrightarrow> P k s \<Longrightarrow> \<exists>s'. body (of_nat k) s = Some s' \<and> P (Suc k) s'"
  shows "\<exists>s'. for_loop i n body s = Some s' \<and> P (unat n) s'"
  using assms
proof (induction i n body s rule: for_loop.induct)
  case (1 i n body s)
  show ?case
  proof (cases "i < n")
    case True
    then have lt: "unat i < unat n"
      by (simp add: word_less_nat_alt)
    from "1.prems"(3) [of "unat i" s] lt "1.prems"(2)
    obtain s' where s': "body i s = Some s'" "P (Suc (unat i)) s'"
      by auto
    have "\<exists>s''. for_loop (i + 1) n body s' = Some s'' \<and> P (unat n) s''"
    proof (rule "1.IH" [OF True s'(1)])
      show "i + 1 \<le> n"
        using True by (rule unat_Suc_less)
      show "P (unat (i + 1)) s'"
        using s'(2) by (simp add: unat_Suc_less [OF True])
      show "\<exists>s'. body (of_nat k) s = Some s' \<and> P (Suc k) s'"
        if "unat (i + 1) \<le> k" "k < unat n" "P k s" for k s
        using that by (intro "1.prems"(3)) (simp_all add: unat_Suc_less [OF True])
    qed
    then show ?thesis
      using True s'(1) by (subst for_loop.simps) simp
  next
    case False
    with "1.prems"(1) have "i = n"
      by simp
    then show ?thesis
      using "1.prems"(2) by (subst for_loop.simps) simp
  qed
qed

lemma for_loop_cong:
  assumes "\<And>k s. i \<le> k \<Longrightarrow> k < n \<Longrightarrow> body k s = body' k s"
  shows "for_loop i n body s = for_loop i n body' s"
  using assms
proof (induction i n body s rule: for_loop.induct)
  case (1 i n body s)
  show ?case
  proof (cases "i < n")
    case True
    have b: "body i s = body' i s"
      using True by (intro "1.prems") simp_all
    show ?thesis
    proof (cases "body i s")
      case None
      then show ?thesis
        using True b by (simp add: for_loop.simps [of i n])
    next
      case (Some s')
      have "for_loop (i + 1) n body s' = for_loop (i + 1) n body' s'"
      proof (rule "1.IH" [OF True Some])
        fix k s
        assume "i + 1 \<le> k" "k < n"
        moreover have "i \<le> i + 1"
          using True unat_Suc_less(1) [OF True] by (simp add: word_le_nat_alt)
        ultimately show "body k s = body' k s"
          by (intro "1.prems") simp_all
      qed
      moreover have "body' i s = Some s'"
        using b Some by simp
      ultimately show ?thesis
        using True Some by (simp add: for_loop.simps [of i n])
    qed
  next
    case False
    then show ?thesis
      by (simp add: for_loop.simps [of i n])
  qed
qed

lemma for_loop_ret_rule:
  assumes "i \<le> n" and "P (unat i) s"
    and "\<And>k s. unat i \<le> k \<Longrightarrow> k < unat n \<Longrightarrow> P k s \<Longrightarrow>
           (\<exists>s'. body (of_nat k) s = Some (Next s') \<and> P (Suc k) s') \<or>
           (\<exists>s'. body (of_nat k) s = Some (Return s') \<and> Q s')"
  shows "(\<exists>s'. for_loop_ret i n body s = Some (Next s') \<and> P (unat n) s') \<or>
         (\<exists>s'. for_loop_ret i n body s = Some (Return s') \<and> Q s')"
  using assms
proof (induction i n body s rule: for_loop_ret.induct)
  case (1 i n body s)
  show ?case
  proof (cases "i < n")
    case True
    then have lt: "unat i < unat n"
      by (simp add: word_less_nat_alt)
    from "1.prems"(3) [of "unat i" s] lt "1.prems"(2)
    consider s' where "body i s = Some (Next s')" "P (Suc (unat i)) s'"
      | s' where "body i s = Some (Return s')" "Q s'"
      by auto
    then show ?thesis
    proof cases
      case 1
      have "(\<exists>s''. for_loop_ret (i + 1) n body s' = Some (Next s'') \<and> P (unat n) s'') \<or>
            (\<exists>s''. for_loop_ret (i + 1) n body s' = Some (Return s'') \<and> Q s'')"
      proof (rule "1.IH" [OF True 1(1) refl])
        show "i + 1 \<le> n"
          using True by (rule unat_Suc_less)
        show "P (unat (i + 1)) s'"
          using 1(2) by (simp add: unat_Suc_less [OF True])
        show "(\<exists>s'. body (of_nat k) s = Some (Next s') \<and> P (Suc k) s') \<or>
              (\<exists>s'. body (of_nat k) s = Some (Return s') \<and> Q s')"
          if "unat (i + 1) \<le> k" "k < unat n" "P k s" for k s
          using that by (intro "1.prems"(3)) (simp_all add: unat_Suc_less [OF True])
      qed
      then show ?thesis
        using True 1(1) by (subst (1 2) for_loop_ret.simps) simp
    next
      case 2
      then show ?thesis
        using True by (subst (1 2) for_loop_ret.simps) simp
    qed
  next
    case False
    with "1.prems"(1) have "i = n"
      by simp
    then show ?thesis
      using "1.prems"(2) by (subst (1 2) for_loop_ret.simps) simp
  qed
qed

lemma grid_loop_rule:
  assumes "P 0 s0"
    and step: "\<And>i j s. i < unat w \<Longrightarrow> j < unat h \<Longrightarrow> P (i * unat h + j) s \<Longrightarrow>
           \<exists>s'. body (of_nat i) (of_nat j) s = Some s' \<and> P (Suc (i * unat h + j)) s'"
  shows "\<exists>s'. for_loop 0 w (\<lambda>x s. for_loop 0 h (body x) s) s0 = Some s' \<and> P (unat w * unat h) s'"
proof -
  have "\<exists>s'. for_loop 0 w (\<lambda>x s. for_loop 0 h (body x) s) s0 = Some s'
          \<and> P (unat w * unat h) s'"
  proof (rule for_loop_rule [where P = "\<lambda>i s. P (i * unat h) s"])
    show "(0 :: size_t) \<le> w"
      by simp
    show "P (unat (0 :: size_t) * unat h) s0"
      using assms(1) by simp
    fix i s
    assume i: "i < unat w" and inv: "P (i * unat h) s"
    have "\<exists>s'. for_loop 0 h (body (of_nat i)) s = Some s'
            \<and> P (i * unat h + unat h) s'"
    proof (rule for_loop_rule [where P = "\<lambda>j s. P (i * unat h + j) s"])
      show "(0 :: size_t) \<le> h"
        by simp
      show "P (i * unat h + unat (0 :: size_t)) s"
        using inv by simp
      fix j s
      assume "j < unat h" and "P (i * unat h + j) s"
      with i show "\<exists>s'. body (of_nat i) (of_nat j) s = Some s' \<and> P (i * unat h + Suc j) s'"
        using step [of i j s] by simp
    qed
    then show "\<exists>s'. for_loop 0 h (body (of_nat i)) s = Some s' \<and> P (Suc i * unat h) s'"
      by (simp add: add.commute)
  qed
  then show ?thesis
    by simp
qed

lemma unat_of_nat_less:
  fixes n :: size_t
  assumes "i < unat n"
  shows "unat (of_nat i :: size_t) = i" and "(of_nat i :: size_t) < n"
proof -
  have "unat n < 2 ^ 64"
    using unsigned_less [of n] by simp
  with assms show *: "unat (of_nat i :: size_t) = i"
    by (simp add: unat_of_nat)
  show "(of_nat i :: size_t) < n"
    using * assms by (simp add: word_less_nat_alt)
qed

lemma cell_index_in_range:
  assumes "wf_lattice l" and "i < unat (width l)" and "j < unat (height l)"
  shows "cell_index l (of_nat i) (of_nat j) = i * unat (height l) + j"
proof -
  have "wrap_coord (width l) (of_nat i) = of_nat i"
    using assms(1,2) by (intro wrap_coord_in_range wf_lattice_dims unat_of_nat_less)
  moreover have "wrap_coord (height l) (of_nat j) = of_nat j"
    using assms(1,3) by (intro wrap_coord_in_range wf_lattice_dims unat_of_nat_less)
  ultimately show ?thesis
    using assms(2,3) by (simp add: cell_index_def unat_of_nat_less)
qed

lemma grid_loop_ret_rule:
  assumes "P 0 s0"
    and step: "\<And>i j s. i < unat w \<Longrightarrow> j < unat h \<Longrightarrow> P (i * unat h + j) s \<Longrightarrow>
           (\<exists>s'. body (of_nat i) (of_nat j) s = Some (Next s') \<and> P (Suc (i * unat h + j)) s') \<or>
           (\<exists>s'. body (of_nat i) (of_nat j) s = Some (Return s') \<and> Q s')"
  shows "(\<exists>s'. for_loop_ret 0 w (\<lambda>x s. for_loop_ret 0 h (body x) s) s0 = Some (Next s')
             \<and> P (unat w * unat h) s') \<or>
         (\<exists>s'. for_loop_ret 0 w (\<lambda>x s. for_loop_ret 0 h (body x) s) s0 = Some (Return s') \<and> Q s')"
proof (rule for_loop_ret_rule [where P = "\<lambda>i s. P (i * unat h) s"])
  show "(0 :: size_t) \<le> w"
    by simp
  show "P (unat (0 :: size_t) * unat h) s0"
    using assms(1) by simp
  fix i s
  assume i: "i < unat w" and inv: "P (i * unat h) s"
  have "(\<exists>s'. for_loop_ret 0 h (body (of_nat i)) s = Some (Next s') \<and> P (i * unat h + unat h) s') \<or>
        (\<exists>s'. for_loop_ret 0 h (body (of_nat i)) s = Some (Return s') \<and> Q s')"
  proof (rule for_loop_ret_rule [where P = "\<lambda>j s. P (i * unat h + j) s"])
    show "(0 :: size_t) \<le> h"
      by simp
    show "P (i * unat h + unat (0 :: size_t)) s"
      using inv by simp
    fix j s
    assume "j < unat h" and "P (i * unat h + j) s"
    with i show "(\<exists>s'. body (of_nat i) (of_nat j) s = Some (Next s') \<and> P (i * unat h + Suc j) s') \<or>
        (\<exists>s'. body (of_nat i) (of_nat j) s = Some (Return s') \<and> Q s')"
      using step [of i j s] by simp
  qed
  then show "(\<exists>s'. for_loop_ret 0 h (body (of_nat i)) s = Some (Next s') \<and> P (Suc i * unat h) s') \<or>
        (\<exists>s'. for_loop_ret 0 h (body (of_nat i)) s = Some (Return s') \<and> Q s')"
    by (simp add: add.commute)
qed

section \<open>Flipping and writing single cells\<close>

text \<open>
  Claim C8.  On a lattice with positive dimensions and its full buffer, flipping the
  cell at any coordinate \<open>(x, y)\<close> twice in succession gives back exactly the lattice
  one started from, and therefore the energy computed after the two flips is the
  energy computed before them.
\<close>

theorem flip_twice:
  assumes "wf_lattice l"
  shows "(flip l x y \<bind> (\<lambda>l'. flip l' x y)) = Some l \<and>
         (flip l x y \<bind> (\<lambda>l'. flip l' x y) \<bind> calcEnergy) = calcEnergy l"
proof -
  have "(flip l x y \<bind> (\<lambda>l'. flip l' x y)) = Some l"
    using assms by (simp add: flip_wf unat_getIndex(3))
  then show ?thesis
    by simp
qed

theorem flip_twice_witness:
  "wf_lattice lattice_2x2 \<and>
   (flip lattice_2x2 1 0 \<bind> (\<lambda>l'. flip l' 1 0)) = Some lattice_2x2 \<and>
   (flip lattice_2x2 1 0 \<bind> (\<lambda>l'. flip l' 1 0) \<bind> calcEnergy) = calcEnergy lattice_2x2"
proof -
  have wf: "wf_lattice lattice_2x2"
    by (simp add: wf_lattice_def lattice_2x2_def)
  show ?thesis
    using wf flip_twice [OF wf, of 1 0] by simp
qed

text \<open>
  Claim C10.  On a lattice with positive dimensions and its full buffer,
  \<open>set(x, y, v)\<close> is defined, the cell \<open>(x, y)\<close> reads \<open>v\<close> afterwards, and every
  coordinate pair \<open>(x', y')\<close> whose reduced coordinates differ from those of \<open>(x, y)\<close>
  reads the same value before and after; the index map is injective on the reduced
  coordinates.  For in-range coordinates the reduced coordinates are
  \<open>(x mod width, y mod height)\<close>, the coordinates themselves.
\<close>

theorem set_cell_frame:
  assumes "wf_lattice l"
  shows "\<exists>l'. set_cell l x y v = Some l' \<and> get l' x y = Some v \<and>
           (\<forall>x' y'. (wrap_coord (width l) x', wrap_coord (height l) y')
                      \<noteq> (wrap_coord (width l) x, wrap_coord (height l) y)
                    \<longrightarrow> get l' x' y' = get l x' y') \<and>
           (x < width l \<and> y < height l \<longrightarrow>
              wrap_coord (width l) x = x mod width l \<and> wrap_coord (height l) y = y mod height l)"
proof -
  let ?l' = "l\<lparr>data := (data l)[cell_index l x y := v]\<rparr>"
  from assms have nz: "width l \<noteq> 0" "height l \<noteq> 0"
    by (simp_all add: wf_lattice_def)
  have wf': "wf_lattice ?l'"
    using assms by simp
  have "set_cell l x y v = Some ?l'"
    using assms by (rule set_cell_wf)
  moreover have "get ?l' x y = Some v"
    using assms by (simp add: get_wf [OF wf'] unat_getIndex(3))
  moreover have "get ?l' x' y' = get l x' y'"
    if "(wrap_coord (width l) x', wrap_coord (height l) y')
          \<noteq> (wrap_coord (width l) x, wrap_coord (height l) y)" for x' y'
  proof -
    have "cell_index l x' y' \<noteq> cell_index l x y"
      using cell_index_inj [OF nz, of x' y' x y] that by auto
    then show ?thesis
      by (simp add: get_wf [OF wf'] get_wf [OF assms])
  qed
  moreover have "wrap_coord (width l) x = x mod width l" if "x < width l"
    using that wrap_coord_in_range [OF wf_lattice_dims(1) [OF assms] that]
    by (simp add: mod_word_less)
  moreover have "wrap_coord (height l) y = y mod height l" if "y < height l"
    using that wrap_coord_in_range [OF wf_lattice_dims(2) [OF assms] that]
    by (simp add: mod_word_less)
  ultimately show ?thesis
    by blast
qed

theorem set_cell_frame_witness:
  "wf_lattice lattice_2x2 \<and>
   set_cell lattice_2x2 0 1 1 = Some \<lparr>width = 2, height = 2, data = [1, 1, - 1, 1]\<rparr> \<and>
   get \<lparr>width = 2, height = 2, data = [1, 1, - 1, 1]\<rparr> 1 0 = get lattice_2x2 1 0"
proof -
  have wf: "wf_lattice lattice_2x2"
    by (simp add: wf_lattice_def lattice_2x2_def)
  have eq: "set_cell lattice_2x2 0 1 1 = Some \<lparr>width = 2, height = 2, data = [1, 1, - 1, 1]\<rparr>"
    by (simp add: set_cell_def getIndex_def lattice_2x2_def)
  have ne: "(wrap_coord (width lattice_2x2) 1, wrap_coord (height lattice_2x2) 0)
              \<noteq> (wrap_coord (width lattice_2x2) 0, wrap_coord (height lattice_2x2) 1)"
    by (simp add: wrap_coord_def lattice_2x2_def)
  from set_cell_frame [OF wf, of 0 1 1] eq ne
  have "get \<lparr>width = 2, height = 2, data = [1, 1, - 1, 1]\<rparr> 1 0 = get lattice_2x2 1 0"
    by auto
  with wf eq show ?thesis
    by simp
qed

section \<open>Coordinate reduction\<close>

lemma wrap_coord_int:
  assumes "n \<noteq> 0" and "- uint n \<le> a" and "a < 2 ^ 64 - uint n"
  shows "wrap_coord n (word_of_int a) = word_of_int (a mod uint n)"
proof -
  have pos: "0 < uint n"
    using assms(1) by (simp add: word_neq_0_conv word_less_def)
  have lt: "uint n < 2 ^ 64"
    using uint_lt2p [of n] by simp
  have "uint (word_of_int a + n) = (a + uint n) mod 2 ^ 64"
    by (simp add: uint_word_ariths uint_word_of_int mod_add_left_eq)
  also have "\<dots> = a + uint n"
    using assms(2,3) by (simp add: mod_pos_pos_trivial)
  finally have "uint (wrap_coord n (word_of_int a)) = (a + uint n) mod uint n"
    by (simp add: wrap_coord_def uint_mod)
  also have "\<dots> = a mod uint n"
    by simp
  finally have "uint (wrap_coord n (word_of_int a)) = a mod uint n" .
  moreover have "uint (word_of_int (a mod uint n) :: size_t) = a mod uint n"
  proof -
    have "0 \<le> a mod uint n" "a mod uint n < uint n"
      using pos by simp_all
    then show ?thesis
      using lt by (simp add: uint_word_of_int mod_pos_pos_trivial)
  qed
  ultimately show ?thesis
    by (simp add: word_uint_eq_iff)
qed

lemma get_cong_index: "getIndex l x y = getIndex l x' y' \<Longrightarrow> get l x y = get l x' y'"
  by (simp add: get_def)

text \<open>
  Claim C3, as the code has it.  The coordinates are \<open>size_t\<close> values and the reduction
  is \<^verbatim>\<open>(x + width) % width\<close> in 64-bit arithmetic.  For a lattice with positive
  dimensions and an integer \<open>a\<close> with \<open>-width \<le> a < 2\<^sup>6\<^sup>4 - width\<close> (passed as the
  \<open>size_t\<close> value \<open>a mod 2\<^sup>6\<^sup>4\<close>), likewise \<open>b\<close> for the height, \<open>getIndex\<close> reduces the
  pair to \<open>(a mod width, b mod height)\<close> with the mathematical modulo, which lies in
  \<open>[0, width) \<times> [0, height)\<close>; and \<open>get\<close> reads the same cell at \<open>a + k * width\<close> and at
  \<open>b + k * height\<close> for every integer \<open>k\<close> that keeps the coordinate in that range.
\<close>

theorem getIndex_reduction:
  assumes "width l \<noteq> 0" and "height l \<noteq> 0"
    and "- uint (width l) \<le> a" and "a < 2 ^ 64 - uint (width l)"
    and "- uint (height l) \<le> b" and "b < 2 ^ 64 - uint (height l)"
  shows "getIndex l (word_of_int a) (word_of_int b) =
           Some (word_of_int (a mod uint (width l)) * height l + word_of_int (b mod uint (height l))) \<and>
         0 \<le> a mod uint (width l) \<and> a mod uint (width l) < uint (width l) \<and>
         0 \<le> b mod uint (height l) \<and> b mod uint (height l) < uint (height l) \<and>
         (\<forall>k. - uint (width l) \<le> a + k * uint (width l) \<and> a + k * uint (width l) < 2 ^ 64 - uint (width l)
            \<longrightarrow> get l (word_of_int (a + k * uint (width l))) (word_of_int b) = get l (word_of_int a) (word_of_int b)) \<and>
         (\<forall>k. - uint (height l) \<le> b + k * uint (height l) \<and> b + k * uint (height l) < 2 ^ 64 - uint (height l)
            \<longrightarrow> get l (word_of_int a) (word_of_int (b + k * uint (height l))) = get l (word_of_int a) (word_of_int b))"
proof -
  have pos: "0 < uint (width l)" "0 < uint (height l)"
    using assms(1,2) by (simp_all add: word_neq_0_conv word_less_def)
  have wa: "wrap_coord (width l) (word_of_int a) = word_of_int (a mod uint (width l))"
    using assms by (intro wrap_coord_int)
  have wb: "wrap_coord (height l) (word_of_int b) = word_of_int (b mod uint (height l))"
    using assms by (intro wrap_coord_int)
  have idx: "getIndex l (word_of_int a) (word_of_int b) =
      Some (word_of_int (a mod uint (width l)) * height l + word_of_int (b mod uint (height l)))"
    by (simp add: getIndex_wrap assms(1,2) wa wb)
  have px: "get l (word_of_int (a + k * uint (width l))) (word_of_int b) = get l (word_of_int a) (word_of_int b)"
    if "- uint (width l) \<le> a + k * uint (width l)" "a + k * uint (width l) < 2 ^ 64 - uint (width l)" for k
  proof -
    have "wrap_coord (width l) (word_of_int (a + k * uint (width l))) = word_of_int ((a + k * uint (width l)) mod uint (width l))"
      using assms(1) that by (intro wrap_coord_int)
    then have "wrap_coord (width l) (word_of_int (a + k * uint (width l))) = wrap_coord (width l) (word_of_int a)"
      by (simp add: wa)
    then show ?thesis
      by (intro get_cong_index) (simp add: getIndex_wrap assms(1,2))
  qed
  have py: "get l (word_of_int a) (word_of_int (b + k * uint (height l))) = get l (word_of_int a) (word_of_int b)"
    if "- uint (height l) \<le> b + k * uint (height l)" "b + k * uint (height l) < 2 ^ 64 - uint (height l)" for k
  proof -
    have "wrap_coord (height l) (word_of_int (b + k * uint (height l))) = word_of_int ((b + k * uint (height l)) mod uint (height l))"
      using assms(2) that by (intro wrap_coord_int)
    then have "wrap_coord (height l) (word_of_int (b + k * uint (height l))) = wrap_coord (height l) (word_of_int b)"
      by (simp add: wb)
    then show ?thesis
      by (intro get_cong_index) (simp add: getIndex_wrap assms(1,2))
  qed
  show ?thesis
    using idx pos px py by simp
qed

theorem getIndex_reduction_witness:
  "width lattice_3x1 \<noteq> 0 \<and> height lattice_3x1 \<noteq> 0 \<and>
   - uint (width lattice_3x1) \<le> (- 2 :: int) \<and> (- 2 :: int) < 2 ^ 64 - uint (width lattice_3x1) \<and>
   - uint (height lattice_3x1) \<le> (- 1 :: int) \<and> (- 1 :: int) < 2 ^ 64 - uint (height lattice_3x1) \<and>
   getIndex lattice_3x1 (word_of_int (- 2)) (word_of_int (- 1)) = Some 1 \<and>
   get lattice_3x1 (word_of_int (- 2 + 2 * 3)) (word_of_int (- 1)) = get lattice_3x1 (word_of_int (- 2)) (word_of_int (- 1))"
proof -
  have h: "width lattice_3x1 \<noteq> 0" "height lattice_3x1 \<noteq> 0"
    "- uint (width lattice_3x1) \<le> (- 2 :: int)" "(- 2 :: int) < 2 ^ 64 - uint (width lattice_3x1)"
    "- uint (height lattice_3x1) \<le> (- 1 :: int)" "(- 1 :: int) < 2 ^ 64 - uint (height lattice_3x1)"
    by (simp_all add: lattice_3x1_def)
  have w: "uint (width lattice_3x1) = 3" "height lattice_3x1 = 1" "uint (height lattice_3x1) = 1"
    by (simp_all add: lattice_3x1_def)
  from getIndex_reduction [OF h]
  have "getIndex lattice_3x1 (word_of_int (- 2)) (word_of_int (- 1)) = Some 1"
    and "\<forall>k. - 3 \<le> - 2 + k * 3 \<and> - 2 + k * 3 < (2 ^ 64 - 3 :: int)
            \<longrightarrow> get lattice_3x1 (word_of_int (- 2 + k * 3)) (word_of_int (- 1)) = get lattice_3x1 (word_of_int (- 2)) (word_of_int (- 1))"
    by (simp_all add: w)
  from this(1) this(2) [rule_format, of 2] h show ?thesis
    by simp
qed


text \<open>
  Outside that range the reduction is not the mathematical modulo and not periodic:
  on a lattice of width 3 the coordinate \<open>-4\<close> is reduced to 0, not to 2, and the
  cells read at \<open>-4\<close> and at \<open>-4 + width\<close> differ.
\<close>

theorem getIndex_reduction_counterexample:
  "getIndex lattice_3x1 (word_of_int (- 4)) 0 = Some 0 \<and>
   (- 4 :: int) mod uint (width lattice_3x1) = 2 \<and>
   get lattice_3x1 (word_of_int (- 4)) 0 = Some 1 \<and>
   get lattice_3x1 (word_of_int (- 4) + width lattice_3x1) 0 = Some (- 1) \<and>
   get lattice_3x1 (word_of_int (- 4)) 0 \<noteq> get lattice_3x1 (word_of_int (- 4) + width lattice_3x1) 0"
  by (simp add: lattice_3x1_def getIndex_def get_def)


section \<open>Ground state and energy\<close>

lemma replicate_drop_update:
  assumes "k < length d"
  shows "(replicate k s @ drop k d)[k := s] = replicate (Suc k) s @ drop (Suc k) d"
proof -
  have "drop k d = d ! k # drop (Suc k) d"
    using assms by (simp add: Cons_nth_drop_Suc)
  then show ?thesis
    by (simp add: list_update_append replicate_append_same)
qed

lemma fillGroundState_wf:
  assumes "wf_lattice l"
  shows "fillGroundState l s = Some (l\<lparr>data := replicate (unat (width l) * unat (height l)) s\<rparr>)"
proof -
  let ?P = "\<lambda>k l'. l' = l\<lparr>data := replicate k s @ drop k (data l)\<rparr>"
  have len: "length (data l) = unat (width l) * unat (height l)"
    using assms by (simp add: wf_lattice_def)
  have "\<exists>l'. for_loop 0 (width l) (\<lambda>x l'. for_loop 0 (height l) (\<lambda>y l'. set_cell l' x y s) l') l = Some l'
          \<and> ?P (unat (width l) * unat (height l)) l'"
  proof (rule grid_loop_rule [where P = ?P])
    show "?P 0 l"
      by simp
    fix i j l'
    assume i: "i < unat (width l)" and j: "j < unat (height l)"
      and inv: "?P (i * unat (height l) + j) l'"
    let ?k = "i * unat (height l) + j"
    have k: "?k < length (data l)"
      using i j by (simp add: len index_bound)
    have wf': "wf_lattice l'"
      using assms k by (simp add: inv wf_lattice_def)
    have ci: "cell_index l' (of_nat i) (of_nat j) = ?k"
      using cell_index_in_range [OF assms i j] by (simp add: inv)
    have "set_cell l' (of_nat i) (of_nat j) s = Some (l'\<lparr>data := (data l')[?k := s]\<rparr>)"
      by (simp add: set_cell_wf [OF wf'] ci)
    also have "l'\<lparr>data := (data l')[?k := s]\<rparr> = l\<lparr>data := replicate (Suc ?k) s @ drop (Suc ?k) (data l)\<rparr>"
      using replicate_drop_update [OF k, of s] by (simp add: inv)
    finally show "\<exists>l''. set_cell l' (of_nat i) (of_nat j) s = Some l'' \<and> ?P (Suc ?k) l''"
      by simp
  qed
  then show ?thesis
    by (simp add: fillGroundState_def len)
qed

lemma allocateLattice_wf:
  assumes "w \<noteq> 0" and "h \<noteq> 0" and "unat w * unat h < 2 ^ 63"
  shows "wf_lattice (allocateLattice w h)"
proof -
  have "unat (w * h) = unat w * unat h"
    using assms(3) by (simp add: unat_word_ariths)
  then show ?thesis
    using assms by (simp add: wf_lattice_def allocateLattice_def)
qed

lemma bond_uniform:
  assumes "wf_lattice l" and "data l = replicate (unat (width l) * unat (height l)) s"
    and "s = 1 \<or> s = - 1"
  shows "bond l x y x' y' e = Some (e + 1)"
proof -
  have "get l a b = Some s" for a b
    using unat_getIndex(3) [OF assms(1), of a b] by (simp add: get_wf [OF assms(1)] assms(2))
  moreover have "(scast s :: energy_t) * scast s = 1"
    using assms(3) by auto
  ultimately show ?thesis
    by (simp add: bond_def)
qed

lemma calcEnergy_uniform:
  assumes "wf_lattice l" and "data l = replicate (unat (width l) * unat (height l)) s"
    and "s = 1 \<or> s = - 1"
  shows "calcEnergy l = Some (4 * width l * height l)"
proof -
  let ?P = "\<lambda>k e. e = (of_nat (4 * k) :: energy_t)"
  have "\<exists>e. calcEnergy l = Some e \<and> ?P (unat (width l) * unat (height l)) e"
    unfolding calcEnergy_def
  proof (rule grid_loop_rule [where P = ?P])
    show "?P 0 0"
      by simp
    fix i j e
    assume "?P (i * unat (height l) + j) e"
    then show "\<exists>e'. do {
          e1 \<leftarrow> bond l (of_nat i) (of_nat j) (of_nat i + 1) (of_nat j) e;
          e2 \<leftarrow> bond l (of_nat i) (of_nat j) (of_nat i - 1) (of_nat j) e1;
          e3 \<leftarrow> bond l (of_nat i) (of_nat j) (of_nat i) (of_nat j + 1) e2;
          bond l (of_nat i) (of_nat j) (of_nat i) (of_nat j - 1) e3 } = Some e'
        \<and> ?P (Suc (i * unat (height l) + j)) e'"
      by (simp add: bond_uniform [OF assms])
  qed
  then show ?thesis
    by simp
qed

lemma sint_of_nat_small:
  assumes "k < 2 ^ 63"
  shows "sint (of_nat k :: 64 word) = int k"
proof -
  have "sint (of_nat k :: 64 word) = signed_take_bit 63 (int k)"
    by (simp add: signed_of_nat)
  also have "\<dots> = int k"
    using assms by (intro signed_take_bit_int_eq_self) simp_all
  finally show ?thesis .
qed

text \<open>
  Claim C4.  For every \<open>n > 0\<close> for which an \<open>n \<times> n\<close> lattice can be allocated,
  filling it with \<open>+1\<close> or with \<open>-1\<close> gives the uniform lattice, and \<open>calcEnergy\<close>
  returns \<open>4 * n * n\<close> on it: every cell adds four products of value 1.  The value is
  computed in \<open>int64_t\<close>; as long as \<open>4 * n\<^sup>2\<close> is below \<open>2\<^sup>6\<^sup>3\<close> it is the integer
  \<open>4 * n\<^sup>2\<close> itself.
\<close>

theorem ground_state_energy:
  assumes "n \<noteq> 0" and "unat n * unat n < 2 ^ 63" and "s = SPIN_UP \<or> s = SPIN_DOWN"
  shows "\<exists>l. fillGroundState (allocateLattice n n) s = Some l \<and>
             data l = replicate (unat n * unat n) s \<and>
             calcEnergy l = Some (4 * n * n) \<and>
             (unat n * unat n < 2 ^ 61 \<longrightarrow>
                sint (4 * n * n :: energy_t) = 4 * int (unat n) * int (unat n))"
proof -
  let ?a = "allocateLattice n n"
  let ?l = "?a\<lparr>data := replicate (unat n * unat n) s\<rparr>"
  have wf: "wf_lattice ?a"
    using assms(1,2) by (intro allocateLattice_wf)
  have dims: "width ?a = n" "height ?a = n"
    by (simp_all add: allocateLattice_def)
  have fill: "fillGroundState ?a s = Some ?l"
    using fillGroundState_wf [OF wf, of s] by (simp add: dims)
  have wf': "wf_lattice ?l"
    using wf by (simp add: wf_lattice_def dims)
  have "calcEnergy ?l = Some (4 * width ?l * height ?l)"
    using assms(3) by (intro calcEnergy_uniform wf') (simp_all add: dims SPIN_UP_def SPIN_DOWN_def)
  then have energy: "calcEnergy ?l = Some (4 * n * n)"
    by (simp add: dims)
  have "sint (4 * n * n :: energy_t) = 4 * int (unat n) * int (unat n)"
    if "unat n * unat n < 2 ^ 61"
  proof -
    have "(4 * n * n :: energy_t) = of_nat (4 * unat n * unat n)"
      by simp
    moreover have "4 * unat n * unat n < 2 ^ 63"
      using that by simp
    ultimately show ?thesis
      by (simp only: sint_of_nat_small) simp
  qed
  with fill energy show ?thesis
    by simp
qed

theorem ground_state_energy_witness:
  "(2 :: size_t) \<noteq> 0 \<and> unat (2 :: size_t) * unat (2 :: size_t) < 2 ^ 63 \<and>
   (SPIN_DOWN = SPIN_UP \<or> SPIN_DOWN = SPIN_DOWN) \<and>
   fillGroundState (allocateLattice 2 2) SPIN_DOWN
     = Some \<lparr>width = 2, height = 2, data = [- 1, - 1, - 1, - 1]\<rparr> \<and>
   calcEnergy \<lparr>width = 2, height = 2, data = [- 1, - 1, - 1, - 1]\<rparr> = Some 16 \<and>
   sint (16 :: energy_t) = 16"
proof -
  have h: "(2 :: size_t) \<noteq> 0" "unat (2 :: size_t) * unat (2 :: size_t) < 2 ^ 63"
    "SPIN_DOWN = SPIN_UP \<or> SPIN_DOWN = SPIN_DOWN"
    by simp_all
  have fill: "fillGroundState (allocateLattice 2 2) SPIN_DOWN
     = Some \<lparr>width = 2, height = 2, data = [- 1, - 1, - 1, - 1]\<rparr>"
    by code_simp
  from ground_state_energy [OF h] fill
  have "calcEnergy \<lparr>width = 2, height = 2, data = [- 1, - 1, - 1, - 1]\<rparr> = Some 16"
    by auto
  with h fill show ?thesis
    by simp
qed
lemma getIndex_data_irrelevant [simp]: "getIndex (l\<lparr>data := d\<rparr>) x y = getIndex l x y"
  by (simp add: getIndex_def)

lemma get_negate_all: "get (negate_all l) x y = map_option uminus (get l x y)"
  by (simp add: get_def negate_all_def split: option.split)

lemma get_spins_ok:
  assumes "spins_ok l" and "get l x y = Some v"
  shows "v = 1 \<or> v = - 1"
proof -
  from assms(2) have "v \<in> set (data l)"
    by (auto simp: get_def split: option.splits if_splits)
  with assms(1) show ?thesis
    by (simp add: spins_ok_def list_all_iff)
qed

lemma bond_negate_all:
  assumes "spins_ok l"
  shows "bond (negate_all l) x y x' y' e = bond l x y x' y' e"
proof (cases "get l x y")
  case None
  then show ?thesis
    by (simp add: bond_def get_negate_all)
next
  case a: (Some a)
  show ?thesis
  proof (cases "get l x' y'")
    case None
    then show ?thesis
      by (simp add: bond_def get_negate_all a)
  next
    case b: (Some b)
    have "a = 1 \<or> a = - 1" "b = 1 \<or> b = - 1"
      using assms a b by (auto dest: get_spins_ok)
    then have "(scast (- a) :: energy_t) * scast (- b) = scast a * scast b"
      by auto
    then show ?thesis
      by (simp add: bond_def get_negate_all a b)
  qed
qed

text \<open>
  Claim C7.  For every lattice whose cells all hold \<open>+1\<close> or \<open>-1\<close>, negating every
  cell at once leaves the result of \<open>calcEnergy\<close> unchanged.
\<close>

theorem energy_negate_all:
  assumes "spins_ok l"
  shows "calcEnergy (negate_all l) = calcEnergy l"
proof -
  have "width (negate_all l) = width l" "height (negate_all l) = height l"
    by (simp_all add: negate_all_def)
  then show ?thesis
    by (simp add: calcEnergy_def bond_negate_all [OF assms])
qed

theorem energy_negate_all_witness:
  "spins_ok lattice_2x2 \<and>
   negate_all lattice_2x2 = \<lparr>width = 2, height = 2, data = [- 1, 1, 1, - 1]\<rparr> \<and>
   calcEnergy \<lparr>width = 2, height = 2, data = [- 1, 1, 1, - 1]\<rparr> = calcEnergy lattice_2x2"
proof -
  have ok: "spins_ok lattice_2x2"
    by (simp add: spins_ok_def lattice_2x2_def)
  have neg: "negate_all lattice_2x2 = \<lparr>width = 2, height = 2, data = [- 1, 1, 1, - 1]\<rparr>"
    by (simp add: negate_all_def lattice_2x2_def)
  show ?thesis
    using ok neg energy_negate_all [OF ok] by simp
qed

section \<open>Rendering\<close>

lemma split_lines_row:
  assumes "newline \<notin> set r"
  shows "split_lines (r @ newline # rest) = r # split_lines rest"
  using assms by (induction r) auto

lemma split_lines_rows:
  assumes "\<And>r. r \<in> set rows \<Longrightarrow> newline \<notin> set r"
  shows "split_lines (concat (map (\<lambda>r. r @ [newline]) rows)) = rows"
  using assms by (induction rows) (simp_all add: split_lines_row)

lemma newline_notin_row: "newline \<notin> set (row_text l i)"
  by (auto simp: row_text_def cell_char_def newline_def)

lemma print_row:
  assumes "wf_lattice l"
  shows "for_loop 0 (height l)
           (\<lambda>y out. do {
              v \<leftarrow> get l (of_nat i) y;
              Some (out @ [if v = 1 then CHR ''+'' else CHR ''-'']) }) out
         = Some (out @ row_text l i)"
proof -
  let ?P = "\<lambda>j out'. out' = out @ map (cell_char l i) [0..<j]"
  have "\<exists>out'. for_loop 0 (height l)
           (\<lambda>y out. do {
              v \<leftarrow> get l (of_nat i) y;
              Some (out @ [if v = 1 then CHR ''+'' else CHR ''-'']) }) out = Some out'
          \<and> ?P (unat (height l)) out'"
  proof (rule for_loop_rule [where P = ?P])
    show "(0 :: size_t) \<le> height l"
      by simp
    show "?P (unat (0 :: size_t)) out"
      by simp
    fix j out'
    assume "?P j out'"
    then show "\<exists>s'. do {
              v \<leftarrow> get l (of_nat i) (of_nat j);
              Some (out' @ [if v = 1 then CHR ''+'' else CHR ''-'']) } = Some s' \<and> ?P (Suc j) s'"
      by (simp add: get_wf [OF assms] cell_char_def)
  qed
  then show ?thesis
    by (simp add: row_text_def)
qed

lemma printLattice_wf:
  assumes "wf_lattice l"
  shows "printLattice l out
         = Some (out @ concat (map (\<lambda>i. row_text l i @ [newline]) [0..<unat (width l)]))"
proof -
  let ?P = "\<lambda>i out'. out' = out @ concat (map (\<lambda>i. row_text l i @ [newline]) [0..<i])"
  have "\<exists>out'. printLattice l out = Some out' \<and> ?P (unat (width l)) out'"
    unfolding printLattice_def
  proof (rule for_loop_rule [where P = ?P])
    show "(0 :: size_t) \<le> width l"
      by simp
    show "?P (unat (0 :: size_t)) out"
      by simp
    fix i out'
    assume "?P i out'"
    then show "\<exists>s'. do {
          out'' \<leftarrow> for_loop 0 (height l)
            (\<lambda>y out. do {
               v \<leftarrow> get l (of_nat i) y;
               Some (out @ [if v = 1 then CHR ''+'' else CHR ''-'']) })
            out';
          Some (out'' @ [newline]) } = Some s' \<and> ?P (Suc i) s'"
      by (simp add: print_row [OF assms])
  qed
  then show ?thesis
    by simp
qed

text \<open>
  Claim C5, as the code has it.  The outer loop of \<open>printLattice\<close> runs over \<open>x\<close> and
  ends each pass with a newline, the inner loop runs over \<open>y\<close>.  For every lattice with
  positive dimensions and its full buffer the text appended to the sink has exactly
  \<open>width\<close> lines of exactly \<open>height\<close> characters each; character \<open>y\<close> of line \<open>x\<close> is
  \<open>+\<close> when \<open>get(x, y)\<close> is \<open>+1\<close> and \<open>-\<close> otherwise (so \<open>-\<close> for \<open>-1\<close>).
\<close>

theorem printLattice_shape:
  assumes "wf_lattice l"
  shows "\<exists>text. printLattice l out = Some (out @ text) \<and>
           split_lines text = map (row_text l) [0..<unat (width l)] \<and>
           map length (split_lines text) = replicate (unat (width l)) (unat (height l)) \<and>
           (\<forall>i < unat (width l). \<forall>j < unat (height l).
              split_lines text ! i ! j =
                (if get l (of_nat i) (of_nat j) = Some 1 then CHR ''+'' else CHR ''-''))"
proof -
  let ?text = "concat (map (\<lambda>i. row_text l i @ [newline]) [0..<unat (width l)])"
  have "split_lines (concat (map (\<lambda>r. r @ [newline]) (map (row_text l) [0..<unat (width l)])))
          = map (row_text l) [0..<unat (width l)]"
    by (rule split_lines_rows) (auto simp: newline_notin_row)
  then have lines: "split_lines ?text = map (row_text l) [0..<unat (width l)]"
    by (simp add: comp_def)
  have "map length (map (row_text l) [0..<unat (width l)])
          = replicate (unat (width l)) (unat (height l))"
    by (simp add: row_text_def comp_def map_replicate_const)
  moreover have "map (row_text l) [0..<unat (width l)] ! i ! j =
      (if get l (of_nat i) (of_nat j) = Some 1 then CHR ''+'' else CHR ''-'')"
    if "i < unat (width l)" "j < unat (height l)" for i j
    using that by (simp add: row_text_def cell_char_def)
  ultimately show ?thesis
    using printLattice_wf [OF assms, of out] lines by simp
qed

theorem printLattice_shape_witness:
  "wf_lattice lattice_1x2 \<and>
   printLattice lattice_1x2 [] = Some [CHR ''+'', CHR ''-'', newline] \<and>
   map length (split_lines [CHR ''+'', CHR ''-'', newline]) = [2]"
proof -
  have wf: "wf_lattice lattice_1x2"
    by (simp add: wf_lattice_def lattice_1x2_def)
  have out: "printLattice lattice_1x2 [] = Some [CHR ''+'', CHR ''-'', newline]"
    by code_simp
  from printLattice_shape [OF wf, of "[]"] out
  have "map length (split_lines [CHR ''+'', CHR ''-'', newline])
          = replicate (unat (width lattice_1x2)) (unat (height lattice_1x2))"
    by auto
  then show ?thesis
    using wf out by (simp add: lattice_1x2_def)
qed

text \<open>
  A lattice of width 1 and height 2 is printed as one line of two characters, not as
  two lines of one character.
\<close>

theorem printLattice_shape_counterexample:
  "map_option (\<lambda>text. map length (split_lines text)) (printLattice lattice_1x2 []) = Some [2] \<and>
   replicate (unat (height lattice_1x2)) (unat (width lattice_1x2)) = [1, 1]"
  by code_simp


section \<open>The random source\<close>

lemma round_even_cases: "round_even y = \<lfloor>y\<rfloor> \<or> (round_even y = \<lfloor>y\<rfloor> + 1 \<and> 1 / 2 \<le> y - of_int \<lfloor>y\<rfloor>)"
  by (auto simp: round_even_def Let_def)

lemma round_even_of_int: "round_even (of_int n) = n"
  by (simp add: round_even_def)

lemma round_even_le:
  assumes "y \<le> of_int n"
  shows "round_even y \<le> n"
proof -
  have fl: "\<lfloor>y\<rfloor> \<le> n"
    using assms by (simp add: floor_le_iff)
  show ?thesis
  proof (cases "y = of_int \<lfloor>y\<rfloor>")
    case True
    then have "round_even y = \<lfloor>y\<rfloor>"
      using round_even_cases [of y] by auto
    with fl show ?thesis
      by simp
  next
    case False
    then have "of_int \<lfloor>y\<rfloor> < y"
      using of_int_floor_le [of y] by linarith
    with assms have "of_int \<lfloor>y\<rfloor> < (of_int n :: rat)"
      by linarith
    then have "\<lfloor>y\<rfloor> < n"
      by simp
    then show ?thesis
      using round_even_cases [of y] by auto
  qed
qed

lemma round_even_ge:
  assumes "of_int n \<le> y"
  shows "n \<le> round_even y"
proof -
  have "n \<le> \<lfloor>y\<rfloor>"
    using assms by (simp add: le_floor_iff)
  then show ?thesis
    using round_even_cases [of y] by auto
qed

lemma binade_search_bounds:
  assumes "(1 / 2) ^ n \<le> x" and "x < 2 ^ Suc n"
  shows "2 powi (binade_search n x) \<le> x \<and> x < 2 powi (binade_search n x + 1)"
  using assms
proof (induction n arbitrary: x)
  case 0
  then show ?case
    by simp
next
  case (Suc n)
  consider "x < 1" | "2 \<le> x" | "1 \<le> x" "x < 2"
    by linarith
  then show ?case
  proof cases
    case 1
    have "(1 / 2) ^ n \<le> 2 * x"
      using Suc.prems(1) by simp
    moreover have "2 * x < 2 ^ Suc n"
    proof -
      have "2 * x < 2"
        using 1 by simp
      also have "(2 :: rat) \<le> 2 ^ Suc n"
        by (simp add: self_le_power)
      finally show ?thesis .
    qed
    ultimately have IH: "2 powi (binade_search n (2 * x)) \<le> 2 * x"
      "2 * x < 2 powi (binade_search n (2 * x) + 1)"
      using Suc.IH [of "2 * x"] by simp_all
    have "(2 :: rat) powi (binade_search n (2 * x) - 1) = 2 powi (binade_search n (2 * x)) / 2"
      by (simp add: power_int_diff)
    moreover have "(2 :: rat) powi (binade_search n (2 * x) - 1 + 1) = 2 powi (binade_search n (2 * x) + 1) / 2"
      by (simp add: power_int_add)
    ultimately show ?thesis
      using 1 IH by simp
  next
    case 2
    have "(1 / 2) ^ n \<le> x / 2"
    proof -
      have "(1 / 2 :: rat) ^ n \<le> 1"
        by (simp add: power_le_one)
      also have "1 \<le> x / 2"
        using 2 by simp
      finally show ?thesis .
    qed
    moreover have "x / 2 < 2 ^ Suc n"
      using Suc.prems(2) by simp
    ultimately have IH: "2 powi (binade_search n (x / 2)) \<le> x / 2"
      "x / 2 < 2 powi (binade_search n (x / 2) + 1)"
      using Suc.IH [of "x / 2"] by simp_all
    have "(2 :: rat) powi (binade_search n (x / 2) + 1) = 2 powi (binade_search n (x / 2)) * 2"
      by (simp add: power_int_add)
    moreover have "(2 :: rat) powi (binade_search n (x / 2) + 1 + 1) = 2 powi (binade_search n (x / 2) + 1) * 2"
      by (simp add: power_int_add)
    ultimately show ?thesis
      using 2 IH by simp
  next
    case 3
    then show ?thesis
      by simp
  qed
qed

lemma binade_bounds:
  assumes "(1 / 2) ^ 1100 \<le> \<bar>x\<bar>" and "\<bar>x\<bar> < 2 ^ 1101"
  shows "2 powi (binade x) \<le> \<bar>x\<bar>" and "\<bar>x\<bar> < 2 powi (binade x + 1)"
proof -
  have "\<bar>x\<bar> < 2 ^ Suc 1100"
    using assms(2) by simp
  with assms(1) show "2 powi (binade x) \<le> \<bar>x\<bar>" and "\<bar>x\<bar> < 2 powi (binade x + 1)"
    unfolding binade_def using binade_search_bounds [of 1100 "\<bar>x\<bar>"] by blast+
qed

lemma pow2_less_imp_less:
  fixes a b :: int
  assumes "(2 :: rat) powi a < 2 powi b"
  shows "a < b"
proof (rule ccontr)
  assume "\<not> a < b"
  then have "(2 :: rat) powi b \<le> 2 powi a"
    by (intro power_int_increasing) simp_all
  with assms show False
    by simp
qed

lemma binade_unique:
  assumes "2 powi e \<le> \<bar>x\<bar>" and "\<bar>x\<bar> < 2 powi (e + 1)"
    and "(1 / 2) ^ 1100 \<le> \<bar>x\<bar>" and "\<bar>x\<bar> < 2 ^ 1101"
  shows "binade x = e"
proof -
  note b = binade_bounds [OF assms(3,4)]
  have "(2 :: rat) powi e < 2 powi (binade x + 1)"
    using assms(1) b(2) by linarith
  then have "e < binade x + 1"
    by (rule pow2_less_imp_less)
  moreover have "(2 :: rat) powi (binade x) < 2 powi (e + 1)"
    using assms(2) b(1) by linarith
  then have "binade x < e + 1"
    by (rule pow2_less_imp_less)
  ultimately show ?thesis
    by simp
qed

lemma round_double_exact:
  assumes "x \<noteq> 0" and "x / 2 powi (binade x - 52) = of_int m"
  shows "round_double x = x"
proof -
  have "(2 :: rat) powi (binade x - 52) \<noteq> 0"
    by simp
  then have "2 powi (binade x - 52) * (x / 2 powi (binade x - 52)) = x"
    by simp
  then show ?thesis
    using assms by (simp add: round_double_def Let_def round_even_of_int)
qed

lemma round_double_of_int:
  assumes "0 < k" and "k \<le> 2 ^ 53"
  shows "round_double (of_int k) = of_int k"
proof -
  let ?x = "of_int k :: rat"
  have "(of_int 1 :: rat) \<le> ?x" and "?x \<le> of_int (2 ^ 53)"
  proof -
    from assms(1) have "1 \<le> k"
      by simp
    then show "(of_int 1 :: rat) \<le> ?x"
      by (simp only: of_int_le_iff)
    from assms(2) show "?x \<le> of_int (2 ^ 53)"
      by (simp only: of_int_le_iff)
  qed
  then have x1: "1 \<le> ?x" and x53: "?x \<le> 2 ^ 53"
    by simp_all
  have abs: "\<bar>?x\<bar> = ?x"
    using x1 by simp
  have lo: "(1 / 2) ^ 1100 \<le> \<bar>?x\<bar>"
  proof -
    have "(1 / 2 :: rat) ^ 1100 \<le> 1"
      by (rule power_le_one) simp_all
    with x1 abs show ?thesis
      by linarith
  qed
  have hi: "\<bar>?x\<bar> < 2 ^ 1101"
  proof -
    have "(2 :: rat) ^ 53 < 2 ^ 1101"
      by (rule power_strict_increasing) simp_all
    with x53 abs show ?thesis
      by linarith
  qed
  note b = binade_bounds [OF lo hi, unfolded abs]
  have "(2 :: rat) powi binade ?x < 2 powi 54"
    using b(1) x53 by simp
  then have e53: "binade ?x \<le> 53"
    using pow2_less_imp_less [of "binade ?x" 54] by simp
  have "(2 :: rat) powi 0 < 2 powi (binade ?x + 1)"
    using b(2) x1 by simp
  then have e0: "0 \<le> binade ?x"
    using pow2_less_imp_less [of 0 "binade ?x + 1"] by simp
  have nz: "?x \<noteq> 0"
    using x1 by simp
  show ?thesis
  proof (cases "binade ?x = 53")
    case True
    with b(1) x53 have x: "?x = 2 ^ 53"
      by simp
    have "?x / 2 powi (binade ?x - 52) = ?x / 2"
      by (simp only: True) simp
    also have "\<dots> = of_int (2 ^ 52)"
      by (simp only: x) simp
    finally show ?thesis
      by (rule round_double_exact [OF nz])
  next
    case False
    with e53 have "0 \<le> 52 - binade ?x"
      by simp
    then have "(2 :: rat) powi (52 - binade ?x) = 2 ^ nat (52 - binade ?x)"
      by (simp add: power_int_def)
    moreover have "?x / 2 powi (binade ?x - 52) = ?x * 2 powi (52 - binade ?x)"
      by (simp add: power_int_diff field_simps)
    ultimately have "?x / 2 powi (binade ?x - 52) = of_int (k * 2 ^ nat (52 - binade ?x))"
      by simp
    then show ?thesis
      by (rule round_double_exact [OF nz])
  qed
qed

lemma round_double_unit:
  assumes "(1 / 2) ^ 53 \<le> q" and "q \<le> 1"
  shows "0 \<le> round_double q" and "round_double q \<le> 1"
    and "q \<le> 1 - (1 / 2) ^ 53 \<Longrightarrow> round_double q < 1"
    and "q = 1 \<Longrightarrow> round_double q = 1"
proof -
  have pos: "0 < q"
  proof -
    have "0 < (1 / 2 :: rat) ^ 53"
      by simp
    with assms(1) show ?thesis
      by linarith
  qed
  then have abs: "\<bar>q\<bar> = q" and nz: "q \<noteq> 0"
    by simp_all
  have lo: "(1 / 2) ^ 1100 \<le> \<bar>q\<bar>"
  proof -
    have "(1 / 2 :: rat) ^ 1100 \<le> (1 / 2) ^ 53"
      by (rule power_decreasing) simp_all
    with assms(1) abs show ?thesis
      by linarith
  qed
  have hi: "\<bar>q\<bar> < 2 ^ 1101"
  proof -
    have "(1 :: rat) < 2 ^ 1101"
      by (rule one_less_power) simp_all
    with assms(2) abs show ?thesis
      by linarith
  qed
  note b = binade_bounds [OF lo hi, unfolded abs]
  let ?e = "binade q"
  let ?u = "2 powi (?e - 52) :: rat"
  have u: "0 < ?u"
    by simp
  have rd: "round_double q = ?u * of_int (round_even (q / ?u))"
    using nz by (simp add: round_double_def Let_def)
  have "of_int 0 \<le> q / ?u"
    using pos u by simp
  then have "0 \<le> round_even (q / ?u)"
    by (rule round_even_ge)
  then show "0 \<le> round_double q"
    using u by (simp add: rd)
  have one: "round_double q = 1" if "q = 1"
  proof -
    have "binade q = 0"
      by (rule binade_unique [OF _ _ lo hi]) (simp_all add: that)
    then have "q / ?u = of_int (2 ^ 52)"
      using that by (simp add: power_int_minus field_simps)
    then have "round_double q = q"
      by (rule round_double_exact [OF nz])
    with that show ?thesis
      by simp
  qed
  then show "q = 1 \<Longrightarrow> round_double q = 1" .
  have below: "round_double q \<le> 2 powi (?e + 1)" "?e + 1 \<le> 0" if "q < 1"
  proof -
    have "(2 :: rat) powi ?e < 2 powi 0"
      using b(1) that by simp
    then show "?e + 1 \<le> 0"
      using pow2_less_imp_less [of ?e 0] by simp
    have "q / ?u < 2 powi (?e + 1) / ?u"
      using b(2) u by (simp add: divide_strict_right_mono)
    also have "2 powi (?e + 1) / ?u = of_int (2 ^ 53)"
      by (simp add: power_int_diff power_int_add)
    finally have "round_even (q / ?u) \<le> 2 ^ 53"
      by (intro round_even_le) simp
    then have "(of_int (round_even (q / ?u)) :: rat) \<le> of_int (2 ^ 53)"
      by (simp only: of_int_le_iff)
    then have "(of_int (round_even (q / ?u)) :: rat) \<le> 2 ^ 53"
      by simp
    then have "?u * of_int (round_even (q / ?u)) \<le> ?u * 2 ^ 53"
      using u by (simp add: mult_left_mono)
    also have "?u * 2 ^ 53 = 2 powi (?e + 1)"
      by (simp add: power_int_diff power_int_add)
    finally show "round_double q \<le> 2 powi (?e + 1)"
      by (simp add: rd)
  qed
  show "round_double q \<le> 1"
  proof (cases "q = 1")
    case True
    with one show ?thesis
      by simp
  next
    case False
    with assms(2) have "q < 1"
      by simp
    note bl = below [OF this]
    have "(2 :: rat) powi (?e + 1) \<le> 2 powi 0"
      using bl(2) by (intro power_int_increasing) simp_all
    with bl(1) show ?thesis
      by simp
  qed
  show "round_double q < 1" if le: "q \<le> 1 - (1 / 2) ^ 53"
  proof -
    have "(0 :: rat) < (1 / 2) ^ 53"
      by simp
    with le have q1: "q < 1"
      by linarith
    note bl = below [OF q1]
    show ?thesis
    proof (cases "?e = - 1")
      case True
      then have uv: "?u = (1 / 2) ^ 53"
        by (simp add: power_int_minus power_one_over)
      have "q / ?u = q * 2 ^ 53"
        by (simp add: uv power_one_over)
      also have "\<dots> \<le> (1 - (1 / 2) ^ 53) * 2 ^ 53"
        using le by (simp add: mult_right_mono)
      also have "\<dots> = of_int (2 ^ 53 - 1)"
        by (simp add: power_one_over)
      finally have "round_even (q / ?u) \<le> 2 ^ 53 - 1"
        by (rule round_even_le)
      then have "(of_int (round_even (q / ?u)) :: rat) \<le> of_int (2 ^ 53 - 1)"
        by (simp only: of_int_le_iff)
      then have "(of_int (round_even (q / ?u)) :: rat) \<le> 2 ^ 53 - 1"
        by simp
      then have "?u * of_int (round_even (q / ?u)) \<le> ?u * (2 ^ 53 - 1)"
        using u by (simp add: mult_left_mono)
      also have "?u * (2 ^ 53 - 1) < 1"
        by (simp add: uv power_one_over)
      finally show ?thesis
        by (simp add: rd)
    next
      case False
      with bl(2) have "?e + 1 \<le> - 1"
        by simp
      then have "(2 :: rat) powi (?e + 1) \<le> 2 powi (- 1)"
        by (intro power_int_increasing) simp_all
      with bl(1) show ?thesis
        by (simp add: power_int_minus)
    qed
  qed
qed

lemma uniformRandom_double:
  "uniformRandom (double_fp libm_exp) RAND_MAX rand
     = round_double (round_double (of_int rand) / round_double (of_int RAND_MAX))"
  by (simp add: uniformRandom_def double_fp_def)

text \<open>
  Claim C6, as the code has it.  Let \<open>0 < RAND_MAX \<le> 2\<^sup>5\<^sup>3\<close>, so that both conversions
  to \<open>double\<close> are exact.  For every generator output in \<open>[0, RAND_MAX]\<close> the value
  \<^verbatim>\<open>(double) rand() / (double) RAND_MAX\<close>, computed in binary64 with rounding to
  nearest, lies in the closed interval \<open>[0, 1]\<close>, and it is below 1 exactly when the
  output is below \<open>RAND_MAX\<close>.
\<close>

theorem uniformRandom_range:
  assumes "0 < RAND_MAX" and "RAND_MAX \<le> 2 ^ 53" and "0 \<le> rand" and "rand \<le> RAND_MAX"
  shows "0 \<le> uniformRandom (double_fp libm_exp) RAND_MAX rand \<and>
         uniformRandom (double_fp libm_exp) RAND_MAX rand \<le> 1 \<and>
         (uniformRandom (double_fp libm_exp) RAND_MAX rand < 1 \<longleftrightarrow> rand < RAND_MAX)"
proof (cases "rand = 0")
  case True
  then have "uniformRandom (double_fp libm_exp) RAND_MAX rand = 0"
    by (simp add: uniformRandom_double round_double_def)
  with True assms(1) show ?thesis
    by simp
next
  case False
  with assms(3) have rpos: "0 < rand"
    by simp
  let ?q = "of_int rand / of_int RAND_MAX :: rat"
  have m: "round_double (of_int RAND_MAX) = of_int RAND_MAX"
    using assms(1,2) by (rule round_double_of_int)
  have "rand \<le> 2 ^ 53"
    using assms(2,4) by simp
  with rpos have "round_double (of_int rand) = of_int rand"
    by (rule round_double_of_int)
  with m have u: "uniformRandom (double_fp libm_exp) RAND_MAX rand = round_double ?q"
    by (simp add: uniformRandom_double)
  have mpos: "(0 :: rat) < of_int RAND_MAX"
    using assms(1) by simp
  have m53: "(of_int RAND_MAX :: rat) \<le> 2 ^ 53"
  proof -
    have "(of_int RAND_MAX :: rat) \<le> of_int (2 ^ 53)"
      using assms(2) by (simp only: of_int_le_iff)
    then show ?thesis
      by simp
  qed
  have inv: "(1 / 2) ^ 53 \<le> 1 / (of_int RAND_MAX :: rat)"
  proof -
    have "1 / (2 ^ 53 :: rat) \<le> 1 / of_int RAND_MAX"
      using mpos m53 by (intro divide_left_mono) simp_all
    then show ?thesis
      by (simp add: power_one_over)
  qed
  have lo: "(1 / 2) ^ 53 \<le> ?q"
  proof -
    have "(1 :: rat) \<le> of_int rand"
      using rpos by simp
    then have "1 / (of_int RAND_MAX :: rat) \<le> ?q"
      using mpos by (simp add: divide_right_mono)
    with inv show ?thesis
      by linarith
  qed
  have hi: "?q \<le> 1"
    using assms(4) mpos by simp
  note r = round_double_unit [OF lo hi]
  show ?thesis
  proof (cases "rand = RAND_MAX")
    case True
    then have "?q = 1"
      using mpos by simp
    then have "round_double ?q = 1"
      by (rule r(4))
    then have "uniformRandom (double_fp libm_exp) RAND_MAX rand = 1"
      by (simp only: u)
    with True show ?thesis
      by simp
  next
    case False
    with assms(4) have lt: "rand < RAND_MAX"
      by simp
    then have "rand + 1 \<le> RAND_MAX"
      by simp
    then have "(of_int (rand + 1) :: rat) \<le> of_int RAND_MAX"
      by (simp only: of_int_le_iff)
    then have "(of_int rand :: rat) \<le> of_int RAND_MAX - 1"
      by simp
    then have "?q \<le> (of_int RAND_MAX - 1) / of_int RAND_MAX"
      using mpos by (simp add: divide_right_mono)
    also have "\<dots> = 1 - 1 / of_int RAND_MAX"
      using mpos by (simp add: field_simps)
    also have "\<dots> \<le> 1 - (1 / 2) ^ 53"
      using inv by linarith
    finally have "round_double ?q < 1"
      by (rule r(3))
    with r(1,2) have "0 \<le> uniformRandom (double_fp libm_exp) RAND_MAX rand"
      "uniformRandom (double_fp libm_exp) RAND_MAX rand \<le> 1"
      "uniformRandom (double_fp libm_exp) RAND_MAX rand < 1"
      by (simp_all only: u)
    with lt show ?thesis
      by simp
  qed
qed

theorem uniformRandom_range_witness:
  "(0 :: int) < 2147483647 \<and> (2147483647 :: int) \<le> 2 ^ 53 \<and>
   (0 :: int) \<le> 1073741823 \<and> (1073741823 :: int) \<le> 2147483647 \<and>
   uniformRandom (double_fp no_exp) 2147483647 1073741823 = 2147483647 / 4294967296 \<and>
   0 \<le> uniformRandom (double_fp no_exp) 2147483647 1073741823 \<and>
   uniformRandom (double_fp no_exp) 2147483647 1073741823 < 1"
proof -
  have h: "(0 :: int) < 2147483647" "(2147483647 :: int) \<le> 2 ^ 53"
    "(0 :: int) \<le> 1073741823" "(1073741823 :: int) \<le> 2147483647"
    by simp_all
  have v: "uniformRandom (double_fp no_exp) 2147483647 1073741823 = 2147483647 / 4294967296"
    by code_simp
  from uniformRandom_range [OF h, of no_exp]
  have "0 \<le> uniformRandom (double_fp no_exp) 2147483647 1073741823"
    and "uniformRandom (double_fp no_exp) 2147483647 1073741823 < 1"
    by simp_all
  with h v show ?thesis
    by (intro conjI)
qed

text \<open>
  For the output \<open>RAND_MAX\<close> itself (here the value \<open>2\<^sup>3\<^sup>1 - 1\<close> of glibc) the
  returned double is 1.
\<close>

theorem uniformRandom_range_counterexample:
  "uniformRandom (double_fp no_exp) 2147483647 2147483647 = 1 \<and>
   \<not> uniformRandom (double_fp no_exp) 2147483647 2147483647 < 1"
proof -
  have "uniformRandom (double_fp no_exp) 2147483647 2147483647 = 1"
    by code_simp
  then show ?thesis
    by simp
qed

section \<open>One sampler step\<close>

lemma cell_order_length: "length (cell_order l) = unat (width l) * unat (height l)"
  by (simp add: cell_order_def)

lemma cell_order_nth:
  assumes "i < unat (width l)" and "j < unat (height l)"
  shows "cell_order l ! (i * unat (height l) + j) = (i, j)"
proof -
  have "i * unat (height l) + j < length [0..<unat (width l)] * length [0..<unat (height l)]"
    using assms by (simp add: index_bound)
  then have "cell_order l ! (i * unat (height l) + j)
      = ([0..<unat (width l)] ! ((i * unat (height l) + j) div length [0..<unat (height l)]),
         [0..<unat (height l)] ! ((i * unat (height l) + j) mod length [0..<unat (height l)]))"
    unfolding cell_order_def by (rule product_nth)
  then show ?thesis
    using assms by simp
qed

lemma flip_in_range:
  assumes "wf_lattice l" and "i < unat (width l)" and "j < unat (height l)"
  shows "flip l (of_nat i) (of_nat j) = Some (flipped l (i * unat (height l) + j))"
  using assms by (simp add: flip_wf cell_index_in_range flipped_def)

lemma flipped_simps [simp]:
  "width (flipped l k) = width l" "height (flipped l k) = height l"
  "length (data (flipped l k)) = length (data l)"
  "wf_lattice (flipped l k) = wf_lattice l"
  by (simp_all add: flipped_def)

lemma flipped_twice: "k < length (data l) \<Longrightarrow> flipped (flipped l k) k = l"
  by (simp add: flipped_def)

lemma bond_defined: "wf_lattice l \<Longrightarrow> \<exists>e'. bond l x y x' y' e = Some e'"
  by (simp add: bond_def get_wf)

lemma calcEnergy_defined:
  assumes "wf_lattice l"
  shows "\<exists>e. calcEnergy l = Some e"
proof -
  have "\<exists>e. calcEnergy l = Some e \<and> (\<lambda>k e. True) (unat (width l) * unat (height l)) e"
    unfolding calcEnergy_def
  proof (rule grid_loop_rule [where P = "\<lambda>k e. True"])
    fix i j e
    obtain e1 where "bond l (of_nat i) (of_nat j) (of_nat i + 1) (of_nat j) e = Some e1"
      using bond_defined [OF assms] by blast
    moreover obtain e2 where "bond l (of_nat i) (of_nat j) (of_nat i - 1) (of_nat j) e1 = Some e2"
      using bond_defined [OF assms] by blast
    moreover obtain e3 where "bond l (of_nat i) (of_nat j) (of_nat i) (of_nat j + 1) e2 = Some e3"
      using bond_defined [OF assms] by blast
    moreover obtain e4 where "bond l (of_nat i) (of_nat j) (of_nat i) (of_nat j - 1) e3 = Some e4"
      using bond_defined [OF assms] by blast
    ultimately show "\<exists>e'. do {
          e1 \<leftarrow> bond l (of_nat i) (of_nat j) (of_nat i + 1) (of_nat j) e;
          e2 \<leftarrow> bond l (of_nat i) (of_nat j) (of_nat i - 1) (of_nat j) e1;
          e3 \<leftarrow> bond l (of_nat i) (of_nat j) (of_nat i) (of_nat j + 1) e2;
          bond l (of_nat i) (of_nat j) (of_nat i) (of_nat j - 1) e3 } = Some e' \<and> True"
      by simp
  qed simp
  then show ?thesis
    by blast
qed

lemma calcWeight_defined:
  assumes "wf_lattice l"
  shows "\<exists>w. calcWeight fp l beta = Some w"
  using calcEnergy_defined [OF assms] by (auto simp: calcWeight_def)

lemma flip_weight_in_range:
  assumes "wf_lattice l" and "i < unat (width l)" and "j < unat (height l)"
  shows "calcWeight fp (flipped l (i * unat (height l) + j)) beta = Some (flip_weight fp l beta (i, j))"
proof -
  obtain w where "calcWeight fp (flipped l (i * unat (height l) + j)) beta = Some w"
    using calcWeight_defined [where l = "flipped l (i * unat (height l) + j)" and fp = fp and beta = beta]
      assms(1) by auto
  then show ?thesis
    by (simp add: flip_weight_def flip_in_range [OF assms])
qed

lemma getIndex_in_range:
  assumes "wf_lattice l" and "i < unat (width l)" and "j < unat (height l)"
  shows "\<exists>w. getIndex l (of_nat i) (of_nat j) = Some w \<and> unat w = i * unat (height l) + j"
  using unat_getIndex(1,2) [OF assms(1), of "of_nat i" "of_nat j"]
    cell_index_in_range [OF assms]
  by simp

lemma take_drop_update:
  assumes "k < length ws" and "length ws = length buf"
  shows "(take k ws @ drop k buf)[k := ws ! k] = take (Suc k) ws @ drop (Suc k) buf"
proof -
  have "drop k buf = buf ! k # drop (Suc k) buf"
    using assms by (simp add: Cons_nth_drop_Suc)
  then show ?thesis
    using assms by (simp add: list_update_append take_Suc_conv_app_nth)
qed

lemma fill_weights_wf:
  assumes "wf_lattice l" and "length buffer = unat (width l) * unat (height l)"
  shows "fill_weights fp l beta buffer = Some (l, map (flip_weight fp l beta) (cell_order l))"
proof -
  let ?ws = "map (flip_weight fp l beta) (cell_order l)"
  let ?n = "unat (width l) * unat (height l)"
  let ?P = "\<lambda>k s. s = (l, take k ?ws @ drop k buffer)"
  have len: "length ?ws = ?n" "length (data l) = ?n"
    using assms(1) by (simp_all add: cell_order_length wf_lattice_def)
  have "\<exists>s. fill_weights fp l beta buffer = Some s \<and> ?P ?n s"
    unfolding fill_weights_def
  proof (rule grid_loop_rule [where P = ?P])
    show "?P 0 (l, buffer)"
      by simp
    fix i j s
    assume i: "i < unat (width l)" and j: "j < unat (height l)"
      and inv: "?P (i * unat (height l) + j) s"
    let ?k = "i * unat (height l) + j"
    have k: "?k < ?n"
      using i j by (rule index_bound)
    have wf1: "wf_lattice (flipped l ?k)"
      using assms(1) by simp
    obtain w where idx: "getIndex (flipped l ?k) (of_nat i) (of_nat j) = Some w" "unat w = ?k"
      using getIndex_in_range [OF wf1, of i j] i j by auto
    have undo: "flip (flipped l ?k) (of_nat i) (of_nat j) = Some l"
      using flip_in_range [OF wf1, of i j] i j k by (simp add: flipped_twice len)
    have w: "?ws ! ?k = flip_weight fp l beta (i, j)"
      using k i j by (simp add: cell_order_length cell_order_nth)
    have "(take ?k ?ws @ drop ?k buffer)[?k := ?ws ! ?k] = take (Suc ?k) ?ws @ drop (Suc ?k) buffer"
      using k by (intro take_drop_update) (simp_all add: cell_order_length assms(2))
    then show "\<exists>s'. (case s of (l, buf) \<Rightarrow> do {
             l1 \<leftarrow> flip l (of_nat i) (of_nat j);
             weight \<leftarrow> calcWeight fp l1 beta;
             ix \<leftarrow> getIndex l1 (of_nat i) (of_nat j);
             buf' \<leftarrow> buf_write buf ix weight;
             l2 \<leftarrow> flip l1 (of_nat i) (of_nat j);
             Some (l2, buf') }) = Some s' \<and> ?P (Suc ?k) s'"
      using k by (simp add: inv flip_in_range [OF assms(1) i j] flip_weight_in_range [OF assms(1) i j]
          idx buf_write_def undo w cell_order_length assms(2))
  qed
  then show ?thesis
    by (simp add: cell_order_length assms(2))
qed

lemma sum_weights_wf:
  assumes "wf_lattice l" and "length buf = unat (width l) * unat (height l)"
  shows "sum_weights fp l buf = Some (foldl (fp_add fp) (fp_zero fp) buf)"
proof -
  let ?n = "unat (width l) * unat (height l)"
  let ?P = "\<lambda>k s. s = foldl (fp_add fp) (fp_zero fp) (take k buf)"
  have "\<exists>s. sum_weights fp l buf = Some s \<and> ?P ?n s"
    unfolding sum_weights_def
  proof (rule grid_loop_rule [where P = ?P])
    show "?P 0 (fp_zero fp)"
      by simp
    fix i j s
    assume i: "i < unat (width l)" and j: "j < unat (height l)"
      and inv: "?P (i * unat (height l) + j) s"
    let ?k = "i * unat (height l) + j"
    have k: "?k < ?n"
      using i j by (rule index_bound)
    obtain w where idx: "getIndex l (of_nat i) (of_nat j) = Some w" "unat w = ?k"
      using getIndex_in_range [OF assms(1) i j] by auto
    show "\<exists>s'. do {
             i \<leftarrow> getIndex l (of_nat i) (of_nat j);
             v \<leftarrow> buf_read buf i;
             Some (fp_add fp s v) } = Some s' \<and> ?P (Suc ?k) s'"
      using k by (simp add: inv idx buf_read_def assms(2) take_Suc_conv_app_nth)
  qed
  then show ?thesis
    by (simp add: assms(2))
qed

lemma map_take_drop_update:
  assumes "k < length buf"
  shows "(map f (take k buf) @ drop k buf)[k := f (buf ! k)] = map f (take (Suc k) buf) @ drop (Suc k) buf"
proof -
  have "drop k buf = buf ! k # drop (Suc k) buf"
    using assms by (simp add: Cons_nth_drop_Suc)
  then show ?thesis
    using assms by (simp add: list_update_append take_Suc_conv_app_nth)
qed

lemma normalize_weights_wf:
  assumes "wf_lattice l" and "length buf = unat (width l) * unat (height l)"
  shows "normalize_weights fp l wsum buf = Some (map (\<lambda>v. fp_div fp v wsum) buf)"
proof -
  let ?n = "unat (width l) * unat (height l)"
  let ?f = "\<lambda>v. fp_div fp v wsum"
  let ?P = "\<lambda>k s. s = map ?f (take k buf) @ drop k buf"
  have "\<exists>s. normalize_weights fp l wsum buf = Some s \<and> ?P ?n s"
    unfolding normalize_weights_def
  proof (rule grid_loop_rule [where P = ?P])
    show "?P 0 buf"
      by simp
    fix i j s
    assume i: "i < unat (width l)" and j: "j < unat (height l)"
      and inv: "?P (i * unat (height l) + j) s"
    let ?k = "i * unat (height l) + j"
    have k: "?k < length buf"
      using i j by (simp add: assms(2) index_bound)
    obtain w where idx: "getIndex l (of_nat i) (of_nat j) = Some w" "unat w = ?k"
      using getIndex_in_range [OF assms(1) i j] by auto
    have rd: "(map ?f (take ?k buf) @ drop ?k buf) ! ?k = buf ! ?k"
      using k by (simp add: nth_append)
    show "\<exists>s'. do {
             i \<leftarrow> getIndex l (of_nat i) (of_nat j);
             v \<leftarrow> buf_read s i;
             buf_write s i (fp_div fp v wsum) } = Some s' \<and> ?P (Suc ?k) s'"
      using k map_take_drop_update [OF k, of ?f]
      by (simp add: inv idx buf_read_def buf_write_def rd)
  qed
  then show ?thesis
    by (simp add: assms(2))
qed

lemma find_upt_None: "(\<And>k. k < n \<Longrightarrow> \<not> P k) \<Longrightarrow> find P [0..<n] = None"
  by (simp add: find_None_iff)

lemma find_upt_Some:
  assumes "K < n" and "P K" and "\<And>k. k < K \<Longrightarrow> \<not> P k"
  shows "find P [0..<n] = Some K"
proof -
  have "\<exists>i<length [0..<n]. P ([0..<n] ! i) \<and> K = [0..<n] ! i \<and> (\<forall>j<i. \<not> P ([0..<n] ! j))"
    using assms by (intro exI [of _ K]) simp
  then show ?thesis
    by (simp only: find_Some_iff)
qed

lemma select_flip_wf:
  assumes "wf_lattice l" and "length buf = unat (width l) * unat (height l)"
  shows "select_flip fp l buf r =
           (case find (\<lambda>k. fp_gt fp (cumulative fp buf k) r) [0..<unat (width l) * unat (height l)] of
              None \<Rightarrow> Some (Next (l, foldl (fp_add fp) (fp_zero fp) buf))
            | Some k \<Rightarrow> Some (Return (flipped l k, cumulative fp buf k)))"
proof -
  let ?n = "unat (width l) * unat (height l)"
  let ?hit = "\<lambda>k. fp_gt fp (cumulative fp buf k) r"
  let ?P = "\<lambda>K s. s = (l, foldl (fp_add fp) (fp_zero fp) (take K buf)) \<and> (\<forall>k<K. \<not> ?hit k)"
  let ?Q = "\<lambda>s. \<exists>K<?n. ?hit K \<and> (\<forall>k<K. \<not> ?hit k) \<and> s = (flipped l K, cumulative fp buf K)"
  have "(\<exists>s. select_flip fp l buf r = Some (Next s) \<and> ?P ?n s) \<or>
        (\<exists>s. select_flip fp l buf r = Some (Return s) \<and> ?Q s)"
    unfolding select_flip_def
  proof (rule grid_loop_ret_rule [where P = ?P and Q = ?Q])
    show "?P 0 (l, fp_zero fp)"
      by simp
    fix i j s
    assume i: "i < unat (width l)" and j: "j < unat (height l)"
      and inv: "?P (i * unat (height l) + j) s"
    let ?k = "i * unat (height l) + j"
    have k: "?k < ?n"
      using i j by (rule index_bound)
    obtain w where idx: "getIndex l (of_nat i) (of_nat j) = Some w" "unat w = ?k"
      using getIndex_in_range [OF assms(1) i j] by auto
    have cum: "fp_add fp (foldl (fp_add fp) (fp_zero fp) (take ?k buf)) (buf ! ?k) = cumulative fp buf ?k"
      using k by (simp add: cumulative_def take_Suc_conv_app_nth assms(2))
    have rd: "buf_read buf w = Some (buf ! ?k)"
      using k by (simp add: buf_read_def idx assms(2))
    let ?body = "case s of (l, acc) \<Rightarrow> do {
             ix \<leftarrow> getIndex l (of_nat i) (of_nat j);
             v \<leftarrow> buf_read buf ix;
             let sum' = fp_add fp acc v in
             if fp_gt fp sum' r then do {
               l' \<leftarrow> flip l (of_nat i) (of_nat j);
               Some (Return (l', sum')) }
             else Some (Next (l, sum')) }"
    show "(\<exists>s'. ?body = Some (Next s') \<and> ?P (Suc ?k) s') \<or> (\<exists>s'. ?body = Some (Return s') \<and> ?Q s')"
    proof (cases "?hit ?k")
      case True
      then have "?body = Some (Return (flipped l ?k, cumulative fp buf ?k))"
        using inv by (simp add: idx rd cum flip_in_range [OF assms(1) i j])
      moreover have "?Q (flipped l ?k, cumulative fp buf ?k)"
        using True k inv by blast
      ultimately show ?thesis
        by blast
    next
      case False
      then have "?body = Some (Next (l, cumulative fp buf ?k))"
        using inv by (simp add: idx rd cum)
      moreover have "?P (Suc ?k) (l, cumulative fp buf ?k)"
        using False inv by (auto simp: cumulative_def less_Suc_eq)
      ultimately show ?thesis
        by blast
    qed
  qed
  then show ?thesis
  proof
    assume "\<exists>s. select_flip fp l buf r = Some (Next s) \<and> ?P ?n s"
    then have "select_flip fp l buf r = Some (Next (l, foldl (fp_add fp) (fp_zero fp) buf))"
      and "\<And>k. k < ?n \<Longrightarrow> \<not> ?hit k"
      by (auto simp: assms(2))
    then show ?thesis
      by (simp add: find_upt_None)
  next
    assume "\<exists>s. select_flip fp l buf r = Some (Return s) \<and> ?Q s"
    then obtain K where "select_flip fp l buf r = Some (Return (flipped l K, cumulative fp buf K))"
      and "K < ?n" "?hit K" "\<And>k. k < K \<Longrightarrow> \<not> ?hit k"
      by auto
    then show ?thesis
      using find_upt_Some [of K ?n ?hit] by simp
  qed
qed

lemma tryFlipOneSpin_wf:
  assumes "wf_lattice l" and "length buffer = unat (width l) * unat (height l)"
  shows "tryFlipOneSpin fp l beta buffer r =
           Some (case selected_index fp l beta r of None \<Rightarrow> l | Some k \<Rightarrow> flipped l k,
                 normalized_weights fp l beta)"
proof -
  let ?n = "unat (width l) * unat (height l)"
  let ?ws = "map (flip_weight fp l beta) (cell_order l)"
  let ?nws = "normalized_weights fp l beta"
  have len: "length ?ws = ?n" "length ?nws = ?n"
    by (simp_all add: cell_order_length normalized_weights_def Let_def)
  have 1: "fill_weights fp l beta buffer = Some (l, ?ws)"
    using assms by (rule fill_weights_wf)
  have 2: "sum_weights fp l ?ws = Some (foldl (fp_add fp) (fp_zero fp) ?ws)"
    using assms(1) len(1) by (rule sum_weights_wf)
  have 3: "normalize_weights fp l (foldl (fp_add fp) (fp_zero fp) ?ws) ?ws = Some ?nws"
    using normalize_weights_wf [OF assms(1) len(1)] by (simp add: normalized_weights_def Let_def)
  have 4: "select_flip fp l ?nws r =
      (case selected_index fp l beta r of
         None \<Rightarrow> Some (Next (l, foldl (fp_add fp) (fp_zero fp) ?nws))
       | Some k \<Rightarrow> Some (Return (flipped l k, cumulative fp ?nws k)))"
    using select_flip_wf [OF assms(1) len(2)] by (simp add: selected_index_def cell_order_length)
  show ?thesis
    unfolding tryFlipOneSpin_def by (simp add: 1 2 3 4 split: option.split)
qed

lemma flip_cell_order:
  assumes "wf_lattice l" and "k < unat (width l) * unat (height l)"
  shows "flip l (of_nat (fst (cell_order l ! k))) (of_nat (snd (cell_order l ! k))) = Some (flipped l k)"
proof -
  let ?h = "unat (height l)"
  have h: "0 < ?h"
    using assms(1) by (simp add: wf_lattice_def unat_gt_0)
  have i: "k div ?h < unat (width l)"
    using assms(2) h by (simp add: less_mult_imp_div_less)
  have j: "k mod ?h < ?h"
    using h by simp
  have "cell_order l ! (k div ?h * ?h + k mod ?h) = (k div ?h, k mod ?h)"
    using i j by (rule cell_order_nth)
  then have "cell_order l ! k = (k div ?h, k mod ?h)"
    by simp
  then show ?thesis
    using flip_in_range [OF assms(1) i j] by simp
qed

text \<open>
  Claim C1.  For every lattice with positive dimensions and its full buffer, every
  scratch buffer with one slot per cell, every \<open>beta\<close> and every draw \<open>r\<close>: if some
  cell's cumulative normalized weight exceeds \<open>r\<close>, one call of \<open>tryFlipOneSpin\<close>
  returns the lattice in which the first such cell in the order of the loops, the one
  at position \<open>k\<close>, has been flipped, and \<open>data\<close> differs from before at position \<open>k\<close>
  only; if no cumulative sum exceeds \<open>r\<close>, the call returns the lattice unchanged.
  This holds whatever the floating-point operations compute.
\<close>

theorem tryFlipOneSpin_selects:
  assumes "wf_lattice l" and "length buffer = unat (width l) * unat (height l)"
  shows "(case selected_index fp l beta r of
            None \<Rightarrow>
              tryFlipOneSpin fp l beta buffer r = Some (l, normalized_weights fp l beta) \<and>
              (\<forall>m < length (cell_order l).
                 \<not> fp_gt fp (cumulative fp (normalized_weights fp l beta) m) r)
          | Some k \<Rightarrow>
              k < length (data l) \<and>
              fp_gt fp (cumulative fp (normalized_weights fp l beta) k) r \<and>
              (\<forall>m < k. \<not> fp_gt fp (cumulative fp (normalized_weights fp l beta) m) r) \<and>
              flip l (of_nat (fst (cell_order l ! k))) (of_nat (snd (cell_order l ! k)))
                = Some (flipped l k) \<and>
              tryFlipOneSpin fp l beta buffer r = Some (flipped l k, normalized_weights fp l beta) \<and>
              data (flipped l k) = (data l)[k := - (data l ! k)])"
proof (cases "selected_index fp l beta r")
  case None
  then have "\<forall>m < length (cell_order l).
      \<not> fp_gt fp (cumulative fp (normalized_weights fp l beta) m) r"
    by (simp add: selected_index_def find_None_iff)
  then show ?thesis
    using None tryFlipOneSpin_wf [OF assms, of fp beta r] by simp
next
  case (Some k)
  let ?hit = "\<lambda>k. fp_gt fp (cumulative fp (normalized_weights fp l beta) k) r"
  from Some obtain i where i: "i < length [0..<length (cell_order l)]"
    "?hit ([0..<length (cell_order l)] ! i)" "k = [0..<length (cell_order l)] ! i"
    "\<forall>j<i. \<not> ?hit ([0..<length (cell_order l)] ! j)"
    unfolding selected_index_def find_Some_iff by blast
  then have k: "k < length (cell_order l)" "?hit k" "\<forall>m<k. \<not> ?hit m"
    by simp_all
  have kn: "k < unat (width l) * unat (height l)"
    using k(1) by (simp add: cell_order_length)
  then have "k < length (data l)"
    using assms(1) by (simp add: wf_lattice_def)
  moreover have "flip l (of_nat (fst (cell_order l ! k))) (of_nat (snd (cell_order l ! k)))
      = Some (flipped l k)"
    using assms(1) kn by (rule flip_cell_order)
  moreover have "tryFlipOneSpin fp l beta buffer r = Some (flipped l k, normalized_weights fp l beta)"
    using Some tryFlipOneSpin_wf [OF assms, of fp beta r] by simp
  ultimately show ?thesis
    using Some k(2,3) by (simp add: flipped_def)
qed

theorem tryFlipOneSpin_selects_witness:
  "wf_lattice lattice_1x2 \<and>
   length [0, 0 :: real] = unat (width lattice_1x2) * unat (height lattice_1x2) \<and>
   normalized_weights real_fp lattice_1x2 1 = [1 / 2, 1 / 2] \<and>
   selected_index real_fp lattice_1x2 1 (3 / 4) = Some 1 \<and>
   tryFlipOneSpin real_fp lattice_1x2 1 [0, 0] (3 / 4)
     = Some (\<lparr>width = 1, height = 2, data = [1, 1]\<rparr>, [1 / 2, 1 / 2]) \<and>
   selected_index real_fp lattice_1x2 1 1 = None \<and>
   tryFlipOneSpin real_fp lattice_1x2 1 [0, 0] 1 = Some (lattice_1x2, [1 / 2, 1 / 2])"
proof -
  have wf: "wf_lattice lattice_1x2"
    by (simp add: wf_lattice_def lattice_1x2_def)
  have len: "length [0, 0 :: real] = unat (width lattice_1x2) * unat (height lattice_1x2)"
    by (simp add: lattice_1x2_def)
  have co: "cell_order lattice_1x2 = [(0, 0), (0, 1)]"
    by code_simp
  have w0: "flip_weight real_fp lattice_1x2 1 (0, 0) = exp (- 8)"
    by (simp add: flip_weight_def lattice_1x2_def flip_def get_def set_cell_def getIndex_def
        calcWeight_def calcEnergy_def bond_def for_loop.simps real_fp_def)
  have w1: "flip_weight real_fp lattice_1x2 1 (0, Suc 0) = exp (- 8)"
    by (simp add: flip_weight_def lattice_1x2_def flip_def get_def set_cell_def getIndex_def
        calcWeight_def calcEnergy_def bond_def for_loop.simps real_fp_def)
  have "exp (- 8 :: real) / (exp (- 8) + exp (- 8)) = 1 / 2"
    by (simp add: field_simps)
  then have nws: "normalized_weights real_fp lattice_1x2 1 = [1 / 2, 1 / 2]"
    by (simp add: normalized_weights_def co w0 w1 Let_def) (simp add: real_fp_def)
  have sel: "selected_index real_fp lattice_1x2 1 (3 / 4) = Some 1"
    by (simp add: selected_index_def nws cumulative_def co upt_rec) (simp add: real_fp_def)
  have none: "selected_index real_fp lattice_1x2 1 1 = None"
    by (simp add: selected_index_def nws cumulative_def co upt_rec) (simp add: real_fp_def)
  have fl: "flipped lattice_1x2 (Suc 0) = \<lparr>width = 1, height = 2, data = [1, 1]\<rparr>"
    by (simp add: flipped_def lattice_1x2_def)
  from tryFlipOneSpin_selects [OF wf len, of real_fp 1 "3 / 4"]
  have hit: "tryFlipOneSpin real_fp lattice_1x2 1 [0, 0] (3 / 4)
     = Some (\<lparr>width = 1, height = 2, data = [1, 1]\<rparr>, [1 / 2, 1 / 2])"
    by (simp add: sel nws fl)
  from tryFlipOneSpin_selects [OF wf len, of real_fp 1 1]
  have miss: "tryFlipOneSpin real_fp lattice_1x2 1 [0, 0] 1 = Some (lattice_1x2, [1 / 2, 1 / 2])"
    by (simp add: none nws)
  from wf len nws sel hit none miss show ?thesis
    by (intro conjI)
qed

section \<open>The spin invariant\<close>

lemma spins_ok_flipped:
  assumes "spins_ok l"
  shows "spins_ok (flipped l k)"
proof (cases "k < length (data l)")
  case True
  from assms have all: "\<forall>v \<in> set (data l). v = 1 \<or> v = - 1"
    by (simp add: spins_ok_def list_all_iff)
  with True have "data l ! k = 1 \<or> data l ! k = - 1"
    by simp
  then have "- (data l ! k) = 1 \<or> - (data l ! k) = - 1"
    by auto
  moreover have "set ((data l)[k := - (data l ! k)]) \<subseteq> insert (- (data l ! k)) (set (data l))"
    by (rule set_update_subset_insert)
  ultimately show ?thesis
    using all by (auto simp: spins_ok_def list_all_iff flipped_def)
next
  case False
  then show ?thesis
    using assms by (simp add: flipped_def spins_ok_def list_update_beyond)
qed

lemma tryFlipOneSpin_step:
  assumes "wf_lattice l" and "length buffer = unat (width l) * unat (height l)"
  shows "\<exists>l' buffer'. tryFlipOneSpin fp l beta buffer r = Some (l', buffer') \<and>
           wf_lattice l' \<and> width l' = width l \<and> height l' = height l \<and>
           length buffer' = unat (width l) * unat (height l) \<and>
           (spins_ok l \<longrightarrow> spins_ok l')"
proof -
  let ?l' = "case selected_index fp l beta r of None \<Rightarrow> l | Some k \<Rightarrow> flipped l k"
  have "tryFlipOneSpin fp l beta buffer r = Some (?l', normalized_weights fp l beta)"
    using assms by (rule tryFlipOneSpin_wf)
  moreover have "wf_lattice ?l'" "width ?l' = width l" "height ?l' = height l"
    using assms(1) by (simp_all split: option.split)
  moreover have "length (normalized_weights fp l beta) = unat (width l) * unat (height l)"
    by (simp add: normalized_weights_def Let_def cell_order_length)
  moreover have "spins_ok ?l'" if "spins_ok l"
    using that by (simp add: spins_ok_flipped split: option.split)
  ultimately show ?thesis
    by blast
qed

lemma evolve_loop_valid:
  assumes "valid_lattice l" and "length buffer = unat (width l) * unat (height l)"
  shows "evolve_loop fp beta maxh l buffer e c rs \<noteq> Undefined \<and>
         (\<forall>lf. evolve_loop fp beta maxh l buffer e c rs = Returned lf \<longrightarrow> valid_lattice lf)"
  using assms
proof (induction rs arbitrary: l buffer e c)
  case Nil
  then show ?case
    by simp
next
  case (Cons r rs)
  from Cons.prems have wf: "wf_lattice l" and ok: "spins_ok l"
    by (simp_all add: valid_lattice_def)
  obtain l' buffer' where step: "tryFlipOneSpin fp l beta buffer r = Some (l', buffer')"
    and wf': "wf_lattice l'" and dims: "width l' = width l" "height l' = height l"
    and len': "length buffer' = unat (width l) * unat (height l)" and ok': "spins_ok l'"
    using tryFlipOneSpin_step [OF wf Cons.prems(2), of fp beta r] ok by blast
  obtain e' where e': "calcEnergy l' = Some e'"
    using calcEnergy_defined [OF wf'] by blast
  have valid': "valid_lattice l'"
    using wf' ok' by (simp add: valid_lattice_def)
  let ?c' = "if e = e' then c + 1 else 0"
  show ?case
  proof (cases "maxh \<le> ?c'")
    case True
    then have "evolve_loop fp beta maxh l buffer e c (r # rs) = Returned l'"
      by (simp add: step e')
    then show ?thesis
      using valid' by simp
  next
    case False
    then have "evolve_loop fp beta maxh l buffer e c (r # rs)
        = evolve_loop fp beta maxh l' buffer' e' ?c' rs"
      by (simp add: step e')
    moreover have "length buffer' = unat (width l') * unat (height l')"
      by (simp add: len' dims)
    ultimately show ?thesis
      using Cons.IH [OF valid', of buffer' e' ?c'] by simp
  qed
qed

text \<open>
  Claim C9.  \<open>fillGroundState\<close> with \<open>+1\<close> or \<open>-1\<close> on a lattice with positive
  dimensions and its full buffer gives a lattice all of whose cells hold \<open>+1\<close> or
  \<open>-1\<close>.  On such a lattice \<open>get\<close> returns \<open>+1\<close> or \<open>-1\<close> at every coordinate, and
  \<open>flip\<close>, a sampler step and the thermalization loop (whenever it returns) are
  defined and give such a lattice again.
\<close>

theorem spins_invariant:
  "(wf_lattice la \<and> (s = SPIN_UP \<or> s = SPIN_DOWN) \<longrightarrow>
      (\<exists>l. fillGroundState la s = Some l \<and> valid_lattice l)) \<and>
   (valid_lattice l \<longrightarrow>
      (\<exists>v. get l x y = Some v \<and> (v = 1 \<or> v = - 1)) \<and>
      (\<exists>l'. flip l x y = Some l' \<and> valid_lattice l') \<and>
      (length buffer = unat (width l) * unat (height l) \<longrightarrow>
         (\<exists>l' buffer'. tryFlipOneSpin fp l beta buffer r = Some (l', buffer') \<and> valid_lattice l')) \<and>
      (case evolveIntoThermalState fp l beta maxh draws of
         Undefined \<Rightarrow> False
       | OutOfDraws \<Rightarrow> True
       | Returned l' \<Rightarrow> valid_lattice l'))"
proof (intro conjI impI)
  assume a: "wf_lattice la \<and> (s = SPIN_UP \<or> s = SPIN_DOWN)"
  let ?l = "la\<lparr>data := replicate (unat (width la) * unat (height la)) s\<rparr>"
  have "fillGroundState la s = Some ?l"
    using a by (simp add: fillGroundState_wf)
  moreover have "valid_lattice ?l"
    using a by (auto simp: valid_lattice_def wf_lattice_def spins_ok_def list_all_iff
        SPIN_UP_def SPIN_DOWN_def)
  ultimately show "\<exists>l. fillGroundState la s = Some l \<and> valid_lattice l"
    by blast
next
  assume v: "valid_lattice l"
  then have wf: "wf_lattice l" and ok: "spins_ok l"
    by (simp_all add: valid_lattice_def)
  have "get l x y = Some (data l ! cell_index l x y)"
    using wf by (rule get_wf)
  then show "\<exists>v. get l x y = Some v \<and> (v = 1 \<or> v = - 1)"
    using get_spins_ok [OF ok] by blast
  have "flip l x y = Some (flipped l (cell_index l x y))"
    using wf by (simp add: flip_wf flipped_def)
  moreover have "valid_lattice (flipped l (cell_index l x y))"
    using wf ok by (simp add: valid_lattice_def spins_ok_flipped)
  ultimately show "\<exists>l'. flip l x y = Some l' \<and> valid_lattice l'"
    by blast
  show "\<exists>l' buffer'. tryFlipOneSpin fp l beta buffer r = Some (l', buffer') \<and> valid_lattice l'"
    if "length buffer = unat (width l) * unat (height l)"
    using tryFlipOneSpin_step [OF wf that, of fp beta r] ok
    unfolding valid_lattice_def by blast
  obtain e where e: "calcEnergy l = Some e"
    using calcEnergy_defined [OF wf] by blast
  let ?buf = "replicate (unat (width l * height l)) (fp_zero fp)"
  have "unat (width l * height l) = unat (width l) * unat (height l)"
    using wf by (simp add: wf_lattice_def unat_word_ariths)
  then have "length ?buf = unat (width l) * unat (height l)"
    by simp
  from evolve_loop_valid [OF v this, of fp beta maxh e 0 draws]
  show "case evolveIntoThermalState fp l beta maxh draws of
         Undefined \<Rightarrow> False
       | OutOfDraws \<Rightarrow> True
       | Returned l' \<Rightarrow> valid_lattice l'"
    by (simp add: evolveIntoThermalState_def e split: outcome.split)
qed

theorem spins_invariant_witness:
  "wf_lattice (allocateLattice 1 1) \<and> (SPIN_UP = SPIN_UP \<or> SPIN_UP = SPIN_DOWN) \<and>
   fillGroundState (allocateLattice 1 1) SPIN_UP = Some lattice_1x1 \<and>
   valid_lattice lattice_1x1 \<and>
   length [0 :: real] = unat (width lattice_1x1) * unat (height lattice_1x1) \<and>
   evolveIntoThermalState real_fp lattice_1x1 1 1 [1 / 2]
     = Returned \<lparr>width = 1, height = 1, data = [- 1]\<rparr> \<and>
   valid_lattice \<lparr>width = 1, height = 1, data = [- 1]\<rparr>"
proof -
  have wf0: "wf_lattice (allocateLattice 1 1)"
    by (simp add: wf_lattice_def allocateLattice_def)
  have fill: "fillGroundState (allocateLattice 1 1) SPIN_UP = Some lattice_1x1"
    by code_simp
  from spins_invariant [where la = "allocateLattice 1 1" and s = SPIN_UP, THEN conjunct1] wf0 fill
  have v: "valid_lattice lattice_1x1"
    by auto
  have len: "length [0 :: real] = unat (width lattice_1x1) * unat (height lattice_1x1)"
    by (simp add: lattice_1x1_def)
  have ev: "evolveIntoThermalState real_fp lattice_1x1 1 1 [1 / 2]
     = Returned \<lparr>width = 1, height = 1, data = [- 1]\<rparr>"
    by (simp add: evolveIntoThermalState_def tryFlipOneSpin_def fill_weights_def sum_weights_def
        normalize_weights_def select_flip_def for_loop.simps for_loop_ret.simps flip_def get_def
        set_cell_def getIndex_def calcWeight_def calcEnergy_def bond_def buf_read_def
        buf_write_def real_fp_def lattice_1x1_def)
  from spins_invariant [where l = lattice_1x1 and fp = real_fp and beta = 1 and maxh = 1
      and draws = "[1 / 2]", THEN conjunct2] v ev
  have "valid_lattice \<lparr>width = 1, height = 1, data = [- 1]\<rparr>"
    by simp
  with wf0 fill v len ev show ?thesis
    by simp
qed

section \<open>Thermalization\<close>

lemma stops_at_first:
  assumes "p \<le> cnt 1"
  shows "stops_at p cnt n \<longleftrightarrow> n = 1"
proof
  assume s: "stops_at p cnt n"
  show "n = 1"
  proof (rule ccontr)
    assume "n \<noteq> 1"
    with s have "0 < (1 :: nat) \<and> 1 < n"
      by (auto simp: stops_at_def)
    with s have "cnt 1 < p"
      unfolding stops_at_def by blast
    with assms show False
      by simp
  qed
next
  assume "n = 1"
  with assms show "stops_at p cnt n"
    by (simp add: stops_at_def)
qed

lemma stops_at_later:
  assumes "cnt 1 < p"
  shows "stops_at p cnt n \<longleftrightarrow> (\<exists>n'. n = Suc n' \<and> stops_at p (\<lambda>m. cnt (Suc m)) n')"
proof
  assume s: "stops_at p cnt n"
  then have "0 < n" "p \<le> cnt n" and before: "\<And>m. 0 < m \<Longrightarrow> m < n \<Longrightarrow> cnt m < p"
    by (auto simp: stops_at_def)
  with assms have "n \<noteq> 1"
    by auto
  with \<open>0 < n\<close> obtain n' where n': "n = Suc n'" "0 < n'"
    by (cases n) auto
  have "stops_at p (\<lambda>m. cnt (Suc m)) n'"
    unfolding stops_at_def using n' \<open>p \<le> cnt n\<close> before by auto
  with n' show "\<exists>n'. n = Suc n' \<and> stops_at p (\<lambda>m. cnt (Suc m)) n'"
    by blast
next
  assume "\<exists>n'. n = Suc n' \<and> stops_at p (\<lambda>m. cnt (Suc m)) n'"
  then obtain n' where n': "n = Suc n'" "0 < n'" "p \<le> cnt (Suc n')"
    and before: "\<And>m. 0 < m \<Longrightarrow> m < n' \<Longrightarrow> cnt (Suc m) < p"
    by (auto simp: stops_at_def)
  have "cnt m < p" if "0 < m" "m < n" for m
  proof (cases m)
    case 0
    with that show ?thesis
      by simp
  next
    case (Suc m')
    show ?thesis
    proof (cases "m' = 0")
      case True
      with Suc assms show ?thesis
        by simp
    next
      case False
      with Suc that n' before [of m'] show ?thesis
        by simp
    qed
  qed
  with n' show "stops_at p cnt n"
    by (simp add: stops_at_def)
qed

lemma sampler_run_Cons: "sampler_run fp beta l buf rs = l # tl (sampler_run fp beta l buf rs)"
  by (cases rs) simp_all

lemma count_from_window:
  "count_from c e es \<le> c + length es \<and>
   (\<forall>k < length es. length es \<le> k + count_from c e es \<longrightarrow> (e # es) ! Suc k = (e # es) ! k)"
proof (induction es arbitrary: c e)
  case Nil
  show ?case
    by simp
next
  case (Cons e' es)
  let ?c' = "if e = e' then Suc c else 0"
  let ?r = "count_from ?c' e' es"
  from Cons.IH [of ?c' e']
  have bound: "?r \<le> ?c' + length es"
    and window: "\<And>k. k < length es \<Longrightarrow> length es \<le> k + ?r \<Longrightarrow> (e' # es) ! Suc k = (e' # es) ! k"
    by blast+
  have "(e # e' # es) ! Suc k = (e # e' # es) ! k"
    if "k < Suc (length es)" "Suc (length es) \<le> k + ?r" for k
  proof (cases k)
    case 0
    with that bound have "0 < ?c'"
      by simp
    then have "e = e'"
      by (simp split: if_splits)
    with 0 show ?thesis
      by simp
  next
    case (Suc k')
    with that window [of k'] show ?thesis
      by simp
  qed
  moreover have "?r \<le> c + Suc (length es)"
    using bound by (simp split: if_splits)
  ultimately show ?case
    by simp
qed

lemma energy_of_eq: "calcEnergy l = Some e \<Longrightarrow> energy_of l = e"
  by (simp add: energy_of_def)

lemma evolve_loop_returns:
  assumes "wf_lattice l" and "length buf = unat (width l) * unat (height l)"
    and "calcEnergy l = Some e" and "unat c < unat maxh \<or> c = 0"
  shows "evolve_loop fp beta maxh l buf e c rs = Returned lf \<longleftrightarrow>
         (\<exists>n. n \<le> length rs \<and>
              stops_at (unat maxh)
                (\<lambda>m. count_from (unat c) e (map energy_of (take m (tl (sampler_run fp beta l buf rs))))) n \<and>
              lf = sampler_run fp beta l buf rs ! n)"
  using assms
proof (induction rs arbitrary: l buf e c)
  case Nil
  then show ?case
    by (simp add: stops_at_def)
next
  case (Cons r rs)
  obtain l' buf' where step: "tryFlipOneSpin fp l beta buf r = Some (l', buf')"
    and wf': "wf_lattice l'" and dims: "width l' = width l" "height l' = height l"
    and len': "length buf' = unat (width l) * unat (height l)"
    using tryFlipOneSpin_step [OF Cons.prems(1,2), of fp beta r] by blast
  obtain e' where e': "calcEnergy l' = Some e'"
    using calcEnergy_defined [OF wf'] by blast
  let ?c' = "if e = e' then c + 1 else 0"
  let ?tr' = "sampler_run fp beta l' buf' rs"
  let ?cnt = "\<lambda>m. count_from (unat c) e
      (map energy_of (take m (tl (sampler_run fp beta l buf (r # rs)))))"
  let ?cnt' = "\<lambda>m. count_from (unat ?c') e' (map energy_of (take m (tl ?tr')))"
  have tr: "sampler_run fp beta l buf (r # rs) = l # ?tr'"
    by (simp add: step)
  have tr': "?tr' = l' # tl ?tr'"
    by (rule sampler_run_Cons)
  have "unat c + 1 < 2 ^ 64"
  proof -
    have "unat maxh < 2 ^ 64"
      using unsigned_less [of maxh] by simp
    with Cons.prems(4) show ?thesis
      by auto
  qed
  then have c': "unat ?c' = (if e = e' then Suc (unat c) else 0)"
    by (simp add: unat_word_ariths)
  have shift: "?cnt (Suc m) = ?cnt' m" for m
  proof -
    have "take (Suc m) ?tr' = l' # take m (tl ?tr')"
      by (subst tr') simp
    then show ?thesis
      by (simp add: step c' energy_of_eq [OF e'])
  qed
  have le: "maxh \<le> ?c' \<longleftrightarrow> unat maxh \<le> ?cnt 1"
    using shift [of 0] by (simp add: word_le_nat_alt)
  show ?case
  proof (cases "maxh \<le> ?c'")
    case True
    then have "evolve_loop fp beta maxh l buf e c (r # rs) = Returned l'"
      by (simp add: step e')
    moreover have "stops_at (unat maxh) ?cnt n \<longleftrightarrow> n = 1" for n
      using True le by (intro stops_at_first) simp
    moreover have "sampler_run fp beta l buf (r # rs) ! 1 = l'"
      by (subst tr, subst tr') simp
    ultimately show ?thesis
      by auto
  next
    case False
    then have run: "evolve_loop fp beta maxh l buf e c (r # rs)
        = evolve_loop fp beta maxh l' buf' e' ?c' rs"
      by (simp add: step e')
    have small: "unat ?c' < unat maxh \<or> ?c' = 0"
      using False by (simp add: word_le_nat_alt not_le)
    have IH: "evolve_loop fp beta maxh l' buf' e' ?c' rs = Returned lf \<longleftrightarrow>
         (\<exists>n. n \<le> length rs \<and> stops_at (unat maxh) ?cnt' n \<and> lf = ?tr' ! n)"
      using wf' _ e' small
    proof (rule Cons.IH)
      show "length buf' = unat (width l') * unat (height l')"
        by (simp add: len' dims)
    qed
    have later: "stops_at (unat maxh) ?cnt n \<longleftrightarrow> (\<exists>n'. n = Suc n' \<and> stops_at (unat maxh) ?cnt' n')" for n
    proof -
      have "?cnt 1 < unat maxh"
        using False le by simp
      then have "stops_at (unat maxh) ?cnt n
          \<longleftrightarrow> (\<exists>n'. n = Suc n' \<and> stops_at (unat maxh) (\<lambda>m. ?cnt (Suc m)) n')"
        by (rule stops_at_later)
      then show ?thesis
        by (simp only: shift)
    qed
    show ?thesis
    proof
      assume "evolve_loop fp beta maxh l buf e c (r # rs) = Returned lf"
      with run IH obtain n' where "n' \<le> length rs" "stops_at (unat maxh) ?cnt' n'" "lf = ?tr' ! n'"
        by auto
      then have "Suc n' \<le> length (r # rs) \<and> stops_at (unat maxh) ?cnt (Suc n') \<and>
          lf = sampler_run fp beta l buf (r # rs) ! Suc n'"
        using later [of "Suc n'"] by (simp add: step)
      then show "\<exists>n. n \<le> length (r # rs) \<and> stops_at (unat maxh) ?cnt n \<and>
          lf = sampler_run fp beta l buf (r # rs) ! n"
        by blast
    next
      assume "\<exists>n. n \<le> length (r # rs) \<and> stops_at (unat maxh) ?cnt n \<and>
          lf = sampler_run fp beta l buf (r # rs) ! n"
      then obtain n where n: "n \<le> length (r # rs)" "stops_at (unat maxh) ?cnt n"
        "lf = sampler_run fp beta l buf (r # rs) ! n"
        by blast
      from n(2) later [of n] obtain n' where n': "n = Suc n'" "stops_at (unat maxh) ?cnt' n'"
        by blast
      with n have "n' \<le> length rs \<and> stops_at (unat maxh) ?cnt' n' \<and> lf = ?tr' ! n'"
        by (simp add: step)
      with IH run show "evolve_loop fp beta maxh l buf e c (r # rs) = Returned lf"
        by auto
    qed
  qed
qed

lemma sampler_run_length:
  assumes "wf_lattice l" and "length buf = unat (width l) * unat (height l)"
  shows "length (sampler_run fp beta l buf rs) = Suc (length rs)"
  using assms
proof (induction rs arbitrary: l buf)
  case Nil
  show ?case
    by simp
next
  case (Cons r rs)
  obtain l' buf' where step: "tryFlipOneSpin fp l beta buf r = Some (l', buf')"
    and wf': "wf_lattice l'" and dims: "width l' = width l" "height l' = height l"
    and len': "length buf' = unat (width l) * unat (height l)"
    using tryFlipOneSpin_step [OF Cons.prems, of fp beta r] by blast
  have "length (sampler_run fp beta l' buf' rs) = Suc (length rs)"
    using wf' by (rule Cons.IH) (simp add: len' dims)
  then show ?case
    by (simp add: step)
qed

lemma fresh_buffer_length:
  assumes "wf_lattice l"
  shows "length (replicate (unat (width l * height l)) v) = unat (width l) * unat (height l)"
  using assms by (simp add: wf_lattice_def unat_word_ariths)

text \<open>
  Claim C2.  Started on a lattice with positive dimensions and its full buffer, the
  loop of \<open>evolveIntoThermalState\<close> returns the lattice reached after \<open>n\<close> sampler
  steps exactly when \<open>n\<close> is the first step after which the consecutive-unchanged
  counter (incremented when the energy after a step equals the energy before it, reset
  to zero otherwise) has reached the threshold \<open>max_consequential_hits\<close>.  Hence
  whenever the loop returns, at least that many steps were made and the total energy
  was unchanged across each of the last \<open>max_consequential_hits\<close> steps.
\<close>

theorem evolve_returns_at_threshold:
  assumes "wf_lattice l"
  shows "(evolveIntoThermalState fp l beta maxh draws = Returned lf \<longleftrightarrow>
           (\<exists>n. n \<le> length draws \<and>
                stops_at (unat maxh) (unchanged_counter (thermal_run fp beta l draws)) n \<and>
                lf = thermal_run fp beta l draws ! n)) \<and>
         (evolveIntoThermalState fp l beta maxh draws = Returned lf \<longrightarrow>
           (\<exists>n. 0 < n \<and> n \<le> length draws \<and> lf = thermal_run fp beta l draws ! n \<and>
                unat maxh \<le> n \<and>
                (\<forall>k. n - unat maxh \<le> k \<and> k < n \<longrightarrow>
                   energy_of (thermal_run fp beta l draws ! Suc k)
                     = energy_of (thermal_run fp beta l draws ! k))))"
proof -
  let ?buf = "replicate (unat (width l * height l)) (fp_zero fp)"
  let ?tr = "thermal_run fp beta l draws"
  obtain e where e: "calcEnergy l = Some e"
    using calcEnergy_defined [OF assms] by blast
  have len: "length ?buf = unat (width l) * unat (height l)"
    using assms by (rule fresh_buffer_length)
  have tr: "?tr = l # tl ?tr"
    unfolding thermal_run_def by (rule sampler_run_Cons)
  have cnt: "unchanged_counter ?tr
      = (\<lambda>m. count_from (unat (0 :: size_t)) e (map energy_of (take m (tl (sampler_run fp beta l ?buf draws)))))"
  proof (rule ext)
    fix m
    have "unchanged_counter (l # tl ?tr) m = count_from 0 e (map energy_of (take m (tl ?tr)))"
      by (simp add: unchanged_counter_def energy_of_eq [OF e])
    then show "unchanged_counter ?tr m
      = count_from (unat (0 :: size_t)) e (map energy_of (take m (tl (sampler_run fp beta l ?buf draws))))"
      using tr by (simp add: thermal_run_def)
  qed
  have iff: "evolveIntoThermalState fp l beta maxh draws = Returned lf \<longleftrightarrow>
      (\<exists>n. n \<le> length draws \<and> stops_at (unat maxh) (unchanged_counter ?tr) n \<and> lf = ?tr ! n)"
    unfolding cnt using evolve_loop_returns [OF assms len e, of 0 maxh fp beta draws lf]
    by (simp add: evolveIntoThermalState_def e thermal_run_def)
  have window: "\<exists>n. 0 < n \<and> n \<le> length draws \<and> lf = ?tr ! n \<and> unat maxh \<le> n \<and>
      (\<forall>k. n - unat maxh \<le> k \<and> k < n \<longrightarrow> energy_of (?tr ! Suc k) = energy_of (?tr ! k))"
    if "evolveIntoThermalState fp l beta maxh draws = Returned lf"
  proof -
    from that iff obtain n where n: "n \<le> length draws" "lf = ?tr ! n"
      and stop: "stops_at (unat maxh) (unchanged_counter ?tr) n"
      by blast
    define es where "es = map energy_of (take n (tl ?tr))"
    have "length ?tr = Suc (length draws)"
      unfolding thermal_run_def using assms len by (rule sampler_run_length)
    then have les: "length es = n"
      using n(1) by (simp add: es_def)
    have all: "energy_of l # es = map energy_of (take (Suc n) ?tr)"
      unfolding es_def by (subst (2) tr) simp
    have nth: "(energy_of l # es) ! j = energy_of (?tr ! j)" if "j \<le> n" for j
      using that \<open>length ?tr = Suc (length draws)\<close> n(1) by (simp only: all) simp
    have c: "unchanged_counter ?tr n = count_from 0 (energy_of l) es"
      unfolding es_def by (subst tr) (simp add: unchanged_counter_def)
    from stop have "0 < n" and reach: "unat maxh \<le> count_from 0 (energy_of l) es"
      by (simp_all add: stops_at_def c)
    from count_from_window [of 0 "energy_of l" es]
    have bound: "count_from 0 (energy_of l) es \<le> n"
      and same: "\<And>k. k < n \<Longrightarrow> n \<le> k + count_from 0 (energy_of l) es \<Longrightarrow>
          (energy_of l # es) ! Suc k = (energy_of l # es) ! k"
      unfolding les by simp_all
    have "energy_of (?tr ! Suc k) = energy_of (?tr ! k)" if "n - unat maxh \<le> k" "k < n" for k
    proof -
      have "n \<le> k + count_from 0 (energy_of l) es"
        using that reach by linarith
      with that(2) have "(energy_of l # es) ! Suc k = (energy_of l # es) ! k"
        by (rule same)
      then show ?thesis
        using that(2) nth [of k] nth [of "Suc k"] by simp
    qed
    with \<open>0 < n\<close> n reach bound show ?thesis
      by (intro exI [of _ n]) auto
  qed
  from iff window show ?thesis
    by blast
qed

theorem evolve_returns_at_threshold_witness:
  "wf_lattice lattice_1x1 \<and>
   evolveIntoThermalState real_fp lattice_1x1 1 2 [1 / 2, 1 / 2] = Returned lattice_1x1 \<and>
   thermal_run real_fp 1 lattice_1x1 [1 / 2, 1 / 2]
     = [lattice_1x1, \<lparr>width = 1, height = 1, data = [- 1]\<rparr>, lattice_1x1] \<and>
   (\<exists>n. n \<le> 2 \<and>
        stops_at 2 (unchanged_counter
          [lattice_1x1, \<lparr>width = 1, height = 1, data = [- 1]\<rparr>, lattice_1x1]) n \<and>
        lattice_1x1 = [lattice_1x1, \<lparr>width = 1, height = 1, data = [- 1]\<rparr>, lattice_1x1] ! n)"
proof -
  have wf: "wf_lattice lattice_1x1"
    by (simp add: wf_lattice_def lattice_1x1_def)
  have ev: "evolveIntoThermalState real_fp lattice_1x1 1 2 [1 / 2, 1 / 2] = Returned lattice_1x1"
    by (simp add: evolveIntoThermalState_def tryFlipOneSpin_def fill_weights_def sum_weights_def
        normalize_weights_def select_flip_def for_loop.simps for_loop_ret.simps flip_def get_def
        set_cell_def getIndex_def calcWeight_def calcEnergy_def bond_def buf_read_def
        buf_write_def real_fp_def lattice_1x1_def word_le_nat_alt)
  have run: "thermal_run real_fp 1 lattice_1x1 [1 / 2, 1 / 2]
     = [lattice_1x1, \<lparr>width = 1, height = 1, data = [- 1]\<rparr>, lattice_1x1]"
    by (simp add: thermal_run_def tryFlipOneSpin_def fill_weights_def sum_weights_def
        normalize_weights_def select_flip_def for_loop.simps for_loop_ret.simps flip_def get_def
        set_cell_def getIndex_def calcWeight_def calcEnergy_def bond_def buf_read_def
        buf_write_def real_fp_def lattice_1x1_def)
  have l2: "length [1 / 2, 1 / 2 :: real] = 2" and u2: "unat (2 :: size_t) = 2"
    by simp_all
  have "\<exists>n. n \<le> 2 \<and>
        stops_at 2 (unchanged_counter
          [lattice_1x1, \<lparr>width = 1, height = 1, data = [- 1]\<rparr>, lattice_1x1]) n \<and>
        lattice_1x1 = [lattice_1x1, \<lparr>width = 1, height = 1, data = [- 1]\<rparr>, lattice_1x1] ! n"
    using evolve_returns_at_threshold [OF wf, of real_fp 1 2 "[1 / 2, 1 / 2]" lattice_1x1,
        THEN conjunct1, THEN iffD1, OF ev, unfolded run l2 u2] .
  with wf ev run show ?thesis
    by (intro conjI)
qed

end
